theory Spec2Isabelle
  imports Complex_Main "HOL-Library.Word" "HOL-Library.List_Lexorder" "HOL-Library.Char_ord"
begin

unbundle bit_operations_syntax

section \<open>DNS data as the resolver handles it\<close>

text \<open>
  The resolver of \<^verbatim>\<open>src/src/custom_resolver.py\<close> works on the message objects of the
  dnspython library. Record types and response codes are numbers; the three record types
  and the three response codes the source names are given their protocol values.
\<close>

definition A :: nat where "A = 1"
definition NS :: nat where "NS = 2"
definition AAAA :: nat where "AAAA = 28"

definition NOERROR :: nat where "NOERROR = 0"
definition SERVFAIL :: nat where "SERVFAIL = 2"
definition NXDOMAIN :: nat where "NXDOMAIN = 3"

text \<open>
  One rdata item. The source reads three things from it: \<^verbatim>\<open>getattr(rr, "address", ...)\<close>
  (present on address records), \<^verbatim>\<open>rr.target\<close> (present on NS records, read without a
  default) and \<^verbatim>\<open>rr.to_text()\<close>. A missing attribute is \<open>None\<close>; \<open>target\<close> holds
  the text of the target name.
\<close>

datatype rdata = Rdata (address: "string option") (target: "string option") (to_text: string)

text \<open>
  An RRset. The source reads its TTL with \<^verbatim>\<open>getattr(rrset, "ttl", None)\<close> and keeps it
  only when it is a number, so the field is optional here.
\<close>

record rrset =
  rname :: string
  rdtype :: nat
  ttl :: "int option"
  items :: "rdata list"

record message =
  rcode :: nat
  answer :: "rrset list"
  authority :: "rrset list"
  additional :: "rrset list"

record CacheEntry =
  rrsets :: "rrset list"
  expiry :: real

record TraceEvent =
  server :: string
  step :: string
  response :: string
  rtt :: real
  total_time :: real
  cache_status :: string
  event_time :: real

text \<open>
  The fields of \<^verbatim>\<open>ResolverServer\<close> that resolution reads or writes. The cache is the
  dictionary \<^verbatim>\<open>self._cache\<close>, keyed by (lower-cased name, type).
\<close>

record ResolverServer =
  cache_enabled :: bool
  recursive_default :: bool
  root_servers :: "string list"
  cache :: "(string \<times> nat) \<rightharpoonup> CacheEntry"

section \<open>The outside world\<close>

text \<open>
  Everything the resolver asks of its environment is an oracle indexed by a tick: the tick
  counts the calls made so far, so two calls with the same arguments may be answered
  differently. \<open>now_at\<close> is \<^verbatim>\<open>time.time()\<close>, \<open>perf_at\<close> is
  \<^verbatim>\<open>time.perf_counter()\<close>, \<open>udp_at\<close> is \<^verbatim>\<open>dns.query.udp\<close> (server, name, type,
  recursion desired), \<open>resolve_at\<close> is \<^verbatim>\<open>dns.resolver.Resolver.resolve\<close> (configured
  nameservers, name, type), \<open>system_nameservers\<close> is what
  \<^verbatim>\<open>dns.resolver.Resolver(configure=True)\<close> reads from the system, and \<open>ip_kind\<close> is
  what \<^verbatim>\<open>ipaddress.ip_address\<close> makes of a string, and \<open>rcode_text\<close> is
  \<^verbatim>\<open>dns.rcode.to_text\<close>. Clock values are reals: rounding
  of floating point numbers is not modelled.
\<close>

datatype udp_outcome = UdpResponse message | UdpTimeout | UdpOSError | UdpOtherError

datatype sys_outcome =
  SysAnswer message | SysNXDOMAIN | SysTimeout | SysNoNameservers | SysOtherError

datatype ip_kind = NotAnIP | Loopback | Unspecified | OtherIP

record env =
  now_at :: "nat \<Rightarrow> real"
  perf_at :: "nat \<Rightarrow> real"
  udp_at :: "nat \<Rightarrow> string \<Rightarrow> string \<Rightarrow> nat \<Rightarrow> bool \<Rightarrow> udp_outcome"
  resolve_at :: "nat \<Rightarrow> string list \<Rightarrow> string \<Rightarrow> nat \<Rightarrow> sys_outcome"
  system_nameservers :: "nat \<Rightarrow> string list"
  ip_kind :: "string \<Rightarrow> ip_kind"
  rcode_text :: "nat \<Rightarrow> string"

text \<open>Exceptions that no handler of the resolution code catches.\<close>

datatype exn = QueryError | ResolverError | NoNameservers | AttributeError

section \<open>Cache helpers\<close>

text \<open>\<^verbatim>\<open>str.lower\<close> on the ASCII letters; other bytes are left as they are.\<close>

definition lower_char :: "char \<Rightarrow> char" where
  "lower_char c =
     (let n = (of_char c :: nat) in if 65 \<le> n \<and> n \<le> 90 then char_of (n + 32) else c)"

definition lower :: "string \<Rightarrow> string" where
  "lower s = map lower_char s"

definition cache_key :: "string \<Rightarrow> nat \<Rightarrow> string \<times> nat" where
  "cache_key qname qtype = (lower qname, qtype)"

text \<open>\<^verbatim>\<open>CacheEntry.fresh\<close>: one reading of the wall clock.\<close>

definition fresh :: "env \<Rightarrow> nat \<Rightarrow> CacheEntry \<Rightarrow> bool \<times> nat" where
  "fresh e n entry = (now_at e n < expiry entry, Suc n)"

text \<open>
  \<^verbatim>\<open>_cache_lookup\<close>. The copies it returns are equal to the stored RRsets. The clock
  is read only when the key is present.
\<close>

definition cache_lookup ::
  "env \<Rightarrow> ResolverServer \<Rightarrow> nat \<Rightarrow> string \<Rightarrow> nat \<Rightarrow> rrset list option \<times> ResolverServer \<times> nat" where
  "cache_lookup e srv n qname qtype =
     (let key = cache_key qname qtype in
      case cache srv key of
        None \<Rightarrow> (None, srv, n)
      | Some entry \<Rightarrow>
          (let (is_fresh, n') = fresh e n entry
           in if is_fresh then (Some (rrsets entry), srv, n')
              else (None, srv\<lparr>cache := (cache srv)(key := None)\<rparr>, n')))"

text \<open>\<^verbatim>\<open>_cache_store\<close>.\<close>

definition ttl_values_of :: "rrset list \<Rightarrow> int list" where
  "ttl_values_of rs = List.map_filter ttl rs"

definition cache_store ::
  "env \<Rightarrow> ResolverServer \<Rightarrow> nat \<Rightarrow> string \<Rightarrow> nat \<Rightarrow> rrset list \<Rightarrow> ResolverServer \<times> nat" where
  "cache_store e srv n qname qtype rs =
     (if \<not> cache_enabled srv then (srv, n)
      else let ttl_values = ttl_values_of rs in
        if ttl_values = [] then (srv, n)
        else let t = min_list ttl_values in
          if t \<le> 0 then (srv, n)
          else let expiry = now_at e n + real_of_int t;
                   key = cache_key qname qtype
               in (srv\<lparr>cache := (cache srv)(key \<mapsto> \<lparr>rrsets = rs, expiry = expiry\<rparr>)\<rparr>, Suc n))"

section \<open>Resolution pipeline\<close>

text \<open>
  \<^verbatim>\<open>_safe_system_nameservers\<close>: one reading of the system configuration; entries that
  are not IP literals, loopback or unspecified are skipped.
\<close>

definition safe_system_nameservers :: "env \<Rightarrow> nat \<Rightarrow> string list \<times> nat" where
  "safe_system_nameservers e n =
     (let candidates = system_nameservers e n;
          usable = filter (\<lambda>ns. ip_kind e ns = OtherIP) candidates
      in (if usable = [] then [''8.8.8.8'', ''1.1.1.1''] else usable, Suc n))"

text \<open>
  The first lines of \<^verbatim>\<open>_resolve_ns_addresses\<close> and \<^verbatim>\<open>_recursive_lookup\<close>: a resolver
  configured from the system, its nameservers replaced by the safe ones when there are any.
\<close>

definition configured_nameservers :: "env \<Rightarrow> nat \<Rightarrow> string list \<times> nat" where
  "configured_nameservers e n =
     (let own = system_nameservers e n;
          (safe_ns, n') = safe_system_nameservers e (Suc n)
      in (if safe_ns \<noteq> [] then safe_ns else own, n'))"

text \<open>
  \<^verbatim>\<open>_query_server\<close>: the clock is read, the query sent, and the clock read again when a
  response came. Of the exceptions of the query, the caller catches the timeout and
  \<^verbatim>\<open>OSError\<close>.
\<close>

datatype query_result = Got message real | QTimeout | QOSError | QOtherError

definition query_server ::
  "env \<Rightarrow> nat \<Rightarrow> string \<Rightarrow> string \<Rightarrow> nat \<Rightarrow> bool \<Rightarrow> query_result \<times> nat" where
  "query_server e n server_ip qname qtype recursion_desired =
     (let start = perf_at e n in
      case udp_at e (Suc n) server_ip qname qtype recursion_desired of
        UdpResponse r \<Rightarrow> (Got r (perf_at e (n + 2) - start), n + 3)
      | UdpTimeout \<Rightarrow> (QTimeout, n + 2)
      | UdpOSError \<Rightarrow> (QOSError, n + 2)
      | UdpOtherError \<Rightarrow> (QOtherError, n + 2))"

text \<open>\<^verbatim>\<open>_step_name\<close>, and the update of the depth at the head of the while loop.\<close>

definition step_name :: "nat \<Rightarrow> string" where
  "step_name depth =
     (if depth = 0 then ''Root'' else if depth = 1 then ''TLD'' else ''Authoritative'')"

definition next_depth :: "nat \<Rightarrow> nat" where
  "next_depth depth = min (depth + 1) 2"

text \<open>\<^verbatim>\<open>_summarize\<close>: the referral lists the sorted distinct texts of the authority items.\<close>

fun join :: "string \<Rightarrow> string list \<Rightarrow> string" where
  "join sep [] = []"
| "join sep [x] = x"
| "join sep (x # y # ys) = x @ sep @ join sep (y # ys)"

definition summarize :: "env \<Rightarrow> message \<Rightarrow> string" where
  "summarize e r =
     (if rcode r = NXDOMAIN then ''NXDOMAIN''
      else if answer r \<noteq> [] then ''ANSWER''
      else if authority r \<noteq> [] then
        (let ns_names = join '','' (sort (remdups (map to_text (concat (map items (authority r))))))
         in if ns_names \<noteq> [] then ''REFERRAL '' @ ns_names else ''REFERRAL'')
      else rcode_text e (rcode r))"

text \<open>\<^verbatim>\<open>getattr(rr, "address", rr.to_text())\<close>.\<close>

definition rr_address :: "rdata \<Rightarrow> string" where
  "rr_address rr = (case address rr of Some a \<Rightarrow> a | None \<Rightarrow> to_text rr)"

text \<open>\<^verbatim>\<open>_extract_glue_ips\<close>.\<close>

fun glue_of :: "rrset list \<Rightarrow> string list" where
  "glue_of [] = []"
| "glue_of (rs # rest) =
     (if rdtype rs \<noteq> A \<and> rdtype rs \<noteq> AAAA then glue_of rest
      else map rr_address (items rs) @ glue_of rest)"

definition extract_glue_ips :: "message \<Rightarrow> string list" where
  "extract_glue_ips r = glue_of (additional r)"

text \<open>
  \<^verbatim>\<open>_extract_ns_names\<close>. \<^verbatim>\<open>rr.target\<close> has no default: an item of an NS RRset without
  a target raises \<^verbatim>\<open>AttributeError\<close>.
\<close>

fun targets_of :: "rdata list \<Rightarrow> exn + string list" where
  "targets_of [] = Inr []"
| "targets_of (rr # rest) =
     (case target rr of
        None \<Rightarrow> Inl AttributeError
      | Some t \<Rightarrow> (case targets_of rest of Inl x \<Rightarrow> Inl x | Inr ts \<Rightarrow> Inr (t # ts)))"

fun ns_names_of :: "rrset list \<Rightarrow> exn + string list" where
  "ns_names_of [] = Inr []"
| "ns_names_of (rs # rest) =
     (if rdtype rs \<noteq> NS then ns_names_of rest
      else case targets_of (items rs) of
        Inl x \<Rightarrow> Inl x
      | Inr ts \<Rightarrow> (case ns_names_of rest of Inl x \<Rightarrow> Inl x | Inr names \<Rightarrow> Inr (ts @ names)))"

definition extract_ns_names :: "message \<Rightarrow> exn + string list" where
  "extract_ns_names r = ns_names_of (authority r)"

text \<open>
  \<^verbatim>\<open>_resolve_ns_addresses\<close>: every name is looked up with type A; NXDOMAIN, a timeout
  and \<^verbatim>\<open>NoNameservers\<close> skip the name, and only the A RRsets of an answer are read.
\<close>

fun a_addresses :: "rrset list \<Rightarrow> string list" where
  "a_addresses [] = []"
| "a_addresses (rs # rest) =
     (if rdtype rs \<noteq> A then a_addresses rest
      else map rr_address (items rs) @ a_addresses rest)"

fun resolve_each ::
  "env \<Rightarrow> string list \<Rightarrow> string list \<Rightarrow> string list \<Rightarrow> nat \<Rightarrow> (exn + string list) \<times> nat" where
  "resolve_each e nameservers [] ips n = (Inr ips, n)"
| "resolve_each e nameservers (ns_name # rest) ips n =
     (case resolve_at e n nameservers ns_name A of
        SysAnswer r \<Rightarrow> resolve_each e nameservers rest (ips @ a_addresses (answer r)) (Suc n)
      | SysNXDOMAIN \<Rightarrow> resolve_each e nameservers rest ips (Suc n)
      | SysTimeout \<Rightarrow> resolve_each e nameservers rest ips (Suc n)
      | SysNoNameservers \<Rightarrow> resolve_each e nameservers rest ips (Suc n)
      | SysOtherError \<Rightarrow> (Inl ResolverError, Suc n))"

definition resolve_ns_addresses :: "env \<Rightarrow> nat \<Rightarrow> string list \<Rightarrow> (exn + string list) \<times> nat" where
  "resolve_ns_addresses e n ns_names =
     (let (nameservers, n') = configured_nameservers e n
      in resolve_each e nameservers ns_names [] n')"

text \<open>
  \<^verbatim>\<open>_recursive_lookup\<close>. The handler catches the timeout and NXDOMAIN and returns
  NXDOMAIN for both; any other exception of the system resolver escapes.
\<close>

definition recursive_lookup ::
  "env \<Rightarrow> nat \<Rightarrow> string \<Rightarrow> nat \<Rightarrow> (exn + rrset list \<times> nat \<times> TraceEvent list) \<times> nat" where
  "recursive_lookup e n qname qtype =
     (let (nameservers, n1) = configured_nameservers e n;
          start = perf_at e n1;
          server_logged = (if nameservers \<noteq> [] then hd nameservers else ''SYSTEM'')
      in case resolve_at e (n1 + 1) nameservers qname qtype of
           SysAnswer r \<Rightarrow>
             (let total = perf_at e (n1 + 2) - start;
                  summary = (if answer r \<noteq> [] then ''ANSWER'' else rcode_text e (rcode r));
                  ev = \<lparr>server = server_logged, step = ''Recursive'', response = summary,
                        rtt = total, total_time = total, cache_status = ''MISS'',
                        event_time = now_at e (n1 + 3)\<rparr>
              in (Inr (answer r, rcode r, [ev]), n1 + 4))
         | SysNoNameservers \<Rightarrow> (Inl NoNameservers, n1 + 2)
         | SysOtherError \<Rightarrow> (Inl ResolverError, n1 + 2)
         | _ \<Rightarrow>
             (let total = perf_at e (n1 + 2) - start;
                  ev = \<lparr>server = server_logged, step = ''Recursive'',
                        response = ''TIMEOUT_OR_NXDOMAIN'',
                        rtt = total, total_time = total, cache_status = ''MISS'',
                        event_time = now_at e (n1 + 3)\<rparr>
              in (Inr ([], NXDOMAIN, [ev]), n1 + 4)))"

text \<open>
  The body of the while loop of \<^verbatim>\<open>_iterative_lookup\<close>: the for loop over the current
  servers. It ends by returning from the lookup, by \<^verbatim>\<open>break\<close> with the servers of the
  next pass, by running off the list (the \<^verbatim>\<open>else\<close> of the for loop), or by an exception.
  The last response code, the trace and the tick are threaded through.
\<close>

datatype pass_outcome = Return "rrset list" nat | Break "string list" | Exhausted | Raise exn

fun query_servers ::
  "env \<Rightarrow> string \<Rightarrow> nat \<Rightarrow> bool \<Rightarrow> real \<Rightarrow> string \<Rightarrow> string list \<Rightarrow>
   nat \<Rightarrow> TraceEvent list \<Rightarrow> nat \<Rightarrow> pass_outcome \<times> nat \<times> TraceEvent list \<times> nat" where
  "query_servers e qname qtype rd start label [] last_rcode trace n =
     (Exhausted, last_rcode, trace, n)"
| "query_servers e qname qtype rd start label (srv_ip # rest) last_rcode trace n =
     (case query_server e n srv_ip qname qtype rd of
        (QTimeout, n1) \<Rightarrow> query_servers e qname qtype rd start label rest last_rcode trace n1
      | (QOSError, n1) \<Rightarrow> query_servers e qname qtype rd start label rest last_rcode trace n1
      | (QOtherError, n1) \<Rightarrow> (Raise QueryError, last_rcode, trace, n1)
      | (Got r rtt_s, n1) \<Rightarrow>
          (let last_rcode' = rcode r;
               summary = summarize e r;
               total = perf_at e n1 - start;
               ev = \<lparr>server = srv_ip, step = label, response = summary, rtt = rtt_s,
                     total_time = total, cache_status = ''MISS'', event_time = now_at e (n1 + 1)\<rparr>;
               trace' = trace @ [ev];
               n2 = n1 + 2
           in if last_rcode' = NOERROR \<and> answer r \<noteq> [] then
                (Return (answer r) NOERROR, last_rcode', trace', n2)
              else if last_rcode' = NXDOMAIN then
                (Return [] NXDOMAIN, last_rcode', trace', n2)
              else let glue_ips = extract_glue_ips r in
                if glue_ips \<noteq> [] then (Break glue_ips, last_rcode', trace', n2)
                else (case extract_ns_names r of
                   Inl x \<Rightarrow> (Raise x, last_rcode', trace', n2)
                 | Inr ns_names \<Rightarrow>
                     if ns_names = [] then
                       query_servers e qname qtype rd start label rest last_rcode' trace' n2
                     else (case resolve_ns_addresses e n2 ns_names of
                        (Inl x, n3) \<Rightarrow> (Raise x, last_rcode', trace', n3)
                      | (Inr resolved_ips, n3) \<Rightarrow>
                          if resolved_ips \<noteq> [] then (Break resolved_ips, last_rcode', trace', n3)
                          else query_servers e qname qtype rd start label rest
                                 last_rcode' trace' n3))))"

text \<open>
  The while loop of \<^verbatim>\<open>_iterative_lookup\<close>. The source puts no bound on the number of
  passes, so the loop takes fuel, one unit for each pass: \<open>None\<close> says that the fuel
  ran out before the loop returned.
\<close>

fun iterative_loop ::
  "nat \<Rightarrow> env \<Rightarrow> string \<Rightarrow> nat \<Rightarrow> bool \<Rightarrow> real \<Rightarrow> string list \<Rightarrow> nat \<Rightarrow>
   nat \<Rightarrow> TraceEvent list \<Rightarrow> nat \<Rightarrow> ((exn + rrset list \<times> nat \<times> TraceEvent list) \<times> nat) option" where
  "iterative_loop 0 e qname qtype rd start servers depth last_rcode trace n = None"
| "iterative_loop (Suc fuel) e qname qtype rd start servers depth last_rcode trace n =
     (if servers = [] then Some (Inr ([], last_rcode, trace), n)
      else let label = step_name depth;
               depth' = next_depth depth
           in case query_servers e qname qtype rd start label servers last_rcode trace n of
                (Return answers rc, last_rcode', trace', n') \<Rightarrow> Some (Inr (answers, rc, trace'), n')
              | (Break servers', last_rcode', trace', n') \<Rightarrow>
                  iterative_loop fuel e qname qtype rd start servers' depth' last_rcode' trace' n'
              | (Exhausted, last_rcode', trace', n') \<Rightarrow> Some (Inr ([], last_rcode', trace'), n')
              | (Raise x, last_rcode', trace', n') \<Rightarrow> Some (Inl x, n'))"

definition iterative_lookup ::
  "nat \<Rightarrow> env \<Rightarrow> ResolverServer \<Rightarrow> nat \<Rightarrow> string \<Rightarrow> nat \<Rightarrow> bool \<Rightarrow>
   ((exn + rrset list \<times> nat \<times> TraceEvent list) \<times> nat) option" where
  "iterative_lookup fuel e srv n qname qtype recursion_desired =
     iterative_loop fuel e qname qtype recursion_desired (perf_at e n) (root_servers srv) 0
       SERVFAIL [] (Suc n)"

text \<open>
  \<^verbatim>\<open>resolve\<close>. The result is the tuple of the source, or the exception that escaped,
  with the server (its cache) and the tick afterwards.
\<close>

definition cache_event :: "env \<Rightarrow> nat \<Rightarrow> TraceEvent" where
  "cache_event e n =
     \<lparr>server = ''CACHE'', step = ''CACHE'', response = ''ANSWER_FROM_CACHE'', rtt = 0,
      total_time = 0, cache_status = ''HIT'', event_time = now_at e n\<rparr>"

definition finish_iterative ::
  "env \<Rightarrow> ResolverServer \<Rightarrow> string \<Rightarrow> nat \<Rightarrow>
   ((exn + rrset list \<times> nat \<times> TraceEvent list) \<times> nat) option \<Rightarrow>
   ((exn + rrset list \<times> nat \<times> TraceEvent list \<times> bool) \<times> ResolverServer \<times> nat) option" where
  "finish_iterative e srv qname qtype res =
     (case res of
        None \<Rightarrow> None
      | Some (Inl x, n) \<Rightarrow> Some (Inl x, srv, n)
      | Some (Inr (answers, rc, trace), n) \<Rightarrow>
          (if answers \<noteq> [] \<and> rc = NOERROR then
             (let (srv', n') = cache_store e srv n qname qtype answers
              in Some (Inr (answers, rc, trace, False), srv', n'))
           else Some (Inr (answers, rc, trace, False), srv, n)))"

definition resolve ::
  "nat \<Rightarrow> env \<Rightarrow> ResolverServer \<Rightarrow> nat \<Rightarrow> string \<Rightarrow> nat \<Rightarrow> bool \<Rightarrow>
   ((exn + rrset list \<times> nat \<times> TraceEvent list \<times> bool) \<times> ResolverServer \<times> nat) option" where
  "resolve fuel e srv n qname qtype recursion_requested =
     (case cache_lookup e srv n qname qtype of
        (Some cached, srv1, n1) \<Rightarrow>
          Some (Inr (cached, NOERROR, [cache_event e n1], True), srv1, Suc n1)
      | (None, srv1, n1) \<Rightarrow>
          (if recursion_requested then
             (case recursive_lookup e n1 qname qtype of
                (Inl x, n2) \<Rightarrow> Some (Inl x, srv1, n2)
              | (Inr (answers, rc, trace), n2) \<Rightarrow>
                  if answers \<noteq> [] \<and> rc = NOERROR then
                    (let (srv2, n3) = cache_store e srv1 n2 qname qtype answers
                     in Some (Inr (answers, rc, trace, False), srv2, n3))
                  else finish_iterative e srv1 qname qtype
                         (iterative_lookup fuel e srv1 n2 qname qtype recursion_requested))
           else finish_iterative e srv1 qname qtype
                  (iterative_lookup fuel e srv1 n1 qname qtype recursion_requested)))"

section \<open>One server of a pass\<close>

text \<open>
  What the loop body makes of a response once the trace event is recorded, as a function of
  the response: the lookup returns, the pass breaks off with new servers, the next server
  is tried, or an exception escapes. \<open>hop_event\<close> is the trace event of the body. The
  lemmas \<open>query_servers_skip\<close>, \<open>query_servers_raise\<close> and \<open>query_servers_got\<close> below
  show that the for loop is read correctly this way.
\<close>

datatype verdict = Answered "rrset list" nat | Referred "string list" | Unhelpful | Failed exn

definition examine :: "env \<Rightarrow> nat \<Rightarrow> message \<Rightarrow> verdict \<times> nat" where
  "examine e n r =
     (if rcode r = NOERROR \<and> answer r \<noteq> [] then (Answered (answer r) NOERROR, n)
      else if rcode r = NXDOMAIN then (Answered [] NXDOMAIN, n)
      else if extract_glue_ips r \<noteq> [] then (Referred (extract_glue_ips r), n)
      else (case extract_ns_names r of
              Inl x \<Rightarrow> (Failed x, n)
            | Inr ns_names \<Rightarrow>
                if ns_names = [] then (Unhelpful, n)
                else (case resolve_ns_addresses e n ns_names of
                        (Inl x, n3) \<Rightarrow> (Failed x, n3)
                      | (Inr resolved_ips, n3) \<Rightarrow>
                          if resolved_ips \<noteq> [] then (Referred resolved_ips, n3)
                          else (Unhelpful, n3))))"

definition hop_event ::
  "env \<Rightarrow> real \<Rightarrow> string \<Rightarrow> string \<Rightarrow> message \<Rightarrow> real \<Rightarrow> nat \<Rightarrow> TraceEvent" where
  "hop_event e start label srv_ip r rtt_s n1 =
     \<lparr>server = srv_ip, step = label, response = summarize e r, rtt = rtt_s,
      total_time = perf_at e n1 - start, cache_status = ''MISS'',
      event_time = now_at e (n1 + 1)\<rparr>"

text \<open>
  \<open>referral_chain k\<close> says that each of the first \<open>k\<close> passes of the while loop ends
  with \<^verbatim>\<open>break\<close>, that is, in a referral that gave addresses for the next pass.
\<close>

fun referral_chain ::
  "nat \<Rightarrow> env \<Rightarrow> string \<Rightarrow> nat \<Rightarrow> bool \<Rightarrow> real \<Rightarrow> string list \<Rightarrow> nat \<Rightarrow>
   nat \<Rightarrow> TraceEvent list \<Rightarrow> nat \<Rightarrow> bool" where
  "referral_chain 0 e qname qtype rd start servers depth last_rcode trace n = True"
| "referral_chain (Suc k) e qname qtype rd start servers depth last_rcode trace n =
     (servers \<noteq> [] \<and>
      (case query_servers e qname qtype rd start (step_name depth) servers last_rcode trace n of
         (Break servers', last_rcode', trace', n') \<Rightarrow>
           referral_chain k e qname qtype rd start servers' (next_depth depth)
             last_rcode' trace' n'
       | (Return answers rc, st) \<Rightarrow> False
       | (Exhausted, st) \<Rightarrow> False
       | (Raise x, st) \<Rightarrow> False))"

text \<open>
  The history of a run of the while loop: for each pass that is carried out, the label it
  passes to the for loop, the servers it goes over, how the for loop ended and the events
  the pass added to the trace. A further pass is carried out only after a
  \<^verbatim>\<open>break\<close>.
\<close>

record pass_info =
  pass_label :: string
  pass_servers :: "string list"
  pass_result :: pass_outcome
  pass_events :: "TraceEvent list"

fun passes ::
  "nat \<Rightarrow> env \<Rightarrow> string \<Rightarrow> nat \<Rightarrow> bool \<Rightarrow> real \<Rightarrow> string list \<Rightarrow> nat \<Rightarrow>
   nat \<Rightarrow> TraceEvent list \<Rightarrow> nat \<Rightarrow> pass_info list" where
  "passes 0 e qname qtype rd start servers depth last_rcode trace n = []"
| "passes (Suc fuel) e qname qtype rd start servers depth last_rcode trace n =
     (if servers = [] then []
      else case query_servers e qname qtype rd start (step_name depth) servers last_rcode trace n of
        (out, last_rcode', trace', n') \<Rightarrow>
          \<lparr>pass_label = step_name depth, pass_servers = servers, pass_result = out,
           pass_events = drop (length trace) trace'\<rparr>
          # (case out of
               Break servers' \<Rightarrow>
                 passes fuel e qname qtype rd start servers' (next_depth depth)
                   last_rcode' trace' n'
             | Return answers rc \<Rightarrow> []
             | Exhausted \<Rightarrow> []
             | Raise x \<Rightarrow> []))"

text \<open>
  \<open>agrees_on e f qname qtype rd pts\<close>: the upstream \<open>f\<close> replies to the query as the
  upstream of \<open>e\<close> does at each of the listed (tick, server) points.
\<close>

definition agrees_on ::
  "env \<Rightarrow> (nat \<Rightarrow> string \<Rightarrow> string \<Rightarrow> nat \<Rightarrow> bool \<Rightarrow> udp_outcome) \<Rightarrow> string \<Rightarrow> nat \<Rightarrow> bool \<Rightarrow>
   (nat \<times> string) list \<Rightarrow> bool" where
  "agrees_on e f qname qtype rd pts =
     list_all (\<lambda>p. f (fst p) (snd p) qname qtype rd = udp_at e (fst p) (snd p) qname qtype rd) pts"

section \<open>The response decoder of the socket-level resolver\<close>















section \<open>Example data\<close>

text \<open>
  Concrete inputs on which the theorems below are exercised: an A RRset, an upstream in
  which nothing answers (its clocks show the tick), and a server with three root servers.
\<close>

definition example_rrset :: rrset where
  "example_rrset =
     \<lparr>rname = ''example.com.'', rdtype = A, ttl = Some 300,
      items = [Rdata (Some ''93.184.216.34'') None ''93.184.216.34'']\<rparr>"

definition quiet_env :: env where
  "quiet_env =
     \<lparr>now_at = (\<lambda>n. real n), perf_at = (\<lambda>n. real n),
      udp_at = (\<lambda>n s q t rd. UdpTimeout),
      resolve_at = (\<lambda>n nss q t. SysTimeout),
      system_nameservers = (\<lambda>n. []), ip_kind = (\<lambda>s. NotAnIP),
      rcode_text = (\<lambda>c. ''RCODE'')\<rparr>"

definition example_server :: ResolverServer where
  "example_server =
     \<lparr>cache_enabled = True, recursive_default = False,
      root_servers = [''198.41.0.4'', ''199.9.14.201'', ''192.33.4.12''],
      cache = Map.empty\<rparr>"

definition cached_server :: ResolverServer where
  "cached_server =
     example_server\<lparr>cache :=
       [(''example.com.'', A) \<mapsto> \<lparr>rrsets = [example_rrset], expiry = 5\<rparr>]\<rparr>"

definition stale_rrset :: rrset where
  "stale_rrset = example_rrset\<lparr>ttl := Some 0\<rparr>"

definition short_rrset :: rrset where
  "short_rrset = example_rrset\<lparr>ttl := Some 60\<rparr>"

definition nxdomain_response :: message where
  "nxdomain_response = \<lparr>rcode = NXDOMAIN, answer = [], authority = [], additional = []\<rparr>"

definition nxdomain_env :: env where
  "nxdomain_env = quiet_env\<lparr>udp_at := (\<lambda>n s q t rd. UdpResponse nxdomain_response)\<rparr>"

text \<open>
  A delegation chain: of the three root servers only the third answers, with a referral
  whose glue holds an IPv4 and an IPv6 address; two more referrals follow before the
  answer. In \<open>loop_env\<close> every server answers every query with the same glue referral.
\<close>

definition glue_referral :: "string \<Rightarrow> rrset list \<Rightarrow> message" where
  "glue_referral ns_name glue =
     \<lparr>rcode = NOERROR, answer = [],
      authority = [\<lparr>rname = ''com.'', rdtype = NS, ttl = Some 172800,
                     items = [Rdata None (Some ns_name) ns_name]\<rparr>],
      additional = glue\<rparr>"

definition a_glue :: "string \<Rightarrow> string \<Rightarrow> rrset" where
  "a_glue owner ip =
     \<lparr>rname = owner, rdtype = A, ttl = Some 172800, items = [Rdata (Some ip) None ip]\<rparr>"

definition aaaa_glue :: "string \<Rightarrow> string \<Rightarrow> rrset" where
  "aaaa_glue owner ip =
     \<lparr>rname = owner, rdtype = AAAA, ttl = Some 172800, items = [Rdata (Some ip) None ip]\<rparr>"

definition root_referral :: message where
  "root_referral =
     glue_referral ''a.gtld-servers.net.''
       [a_glue ''a.gtld-servers.net.'' ''192.5.6.30'',
        aaaa_glue ''a.gtld-servers.net.'' ''2001:503:a83e::2:30'']"

definition tld_referral :: message where
  "tld_referral = glue_referral ''a.iana-servers.net.'' [a_glue ''a.iana-servers.net.'' ''199.43.135.53'']"

definition deep_referral :: message where
  "deep_referral = glue_referral ''ns.sub.example.com.'' [a_glue ''ns.sub.example.com.'' ''10.0.0.9'']"

definition final_answer :: message where
  "final_answer = \<lparr>rcode = NOERROR, answer = [example_rrset], authority = [], additional = []\<rparr>"

definition chain_udp :: "string \<Rightarrow> udp_outcome" where
  "chain_udp s =
     (if s = ''192.33.4.12'' then UdpResponse root_referral
      else if s = ''192.5.6.30'' then UdpResponse tld_referral
      else if s = ''199.43.135.53'' then UdpResponse deep_referral
      else if s = ''10.0.0.9'' then UdpResponse final_answer
      else UdpTimeout)"

definition chain_env :: env where
  "chain_env = quiet_env\<lparr>udp_at := (\<lambda>n s q t rd. chain_udp s)\<rparr>"

definition loop_env :: env where
  "loop_env = quiet_env\<lparr>udp_at := (\<lambda>n s q t rd. UdpResponse tld_referral)\<rparr>"

definition picky_env :: env where
  "picky_env =
     quiet_env\<lparr>resolve_at := (\<lambda>n nss q t. if t = A then SysTimeout else SysOtherError)\<rparr>"

text \<open>
  An upstream whose system resolver finds every nameserver failing; a response whose
  header announces two answers and which ends after the first; five bytes of a header;
  and a stand-in for the decoding of label bytes.
\<close>

definition servfail_env :: env where
  "servfail_env = quiet_env\<lparr>resolve_at := (\<lambda>n nss q t. SysNoNameservers)\<rparr>"




section \<open>The cache: lookup and store\<close>

lemma example_key: "cache_key ''Example.COM.'' A = (''example.com.'', A)"
  by code_simp

lemma cached_server_entry:
  "cache cached_server (''example.com.'', A) = Some \<lparr>rrsets = [example_rrset], expiry = 5\<rparr>"
  by (simp add: cached_server_def)

lemma quiet_now: "now_at quiet_env n = real n"
  by (simp add: quiet_env_def)

lemma cache_store_keeps_keys:
  "cache srv k \<noteq> None \<Longrightarrow> cache (fst (cache_store e srv n qname qtype rs)) k \<noteq> None"
  by (simp add: cache_store_def Let_def)

text \<open>
  C1. A stored entry is returned by a lookup exactly when the wall clock read by that
  lookup is strictly before the entry's expiry; then the cache is left as it is. At or
  after the expiry the lookup returns nothing and the cache it leaves behind is the old one
  without that key. The only other operation on the cache, the store, never removes a key.
\<close>

theorem cache_lookup_fresh_iff:
  assumes "cache srv (cache_key qname qtype) = Some entry"
  shows "cache_lookup e srv n qname qtype =
           (if now_at e n < expiry entry then (Some (rrsets entry), srv, Suc n)
            else (None, srv\<lparr>cache := (cache srv)(cache_key qname qtype := None)\<rparr>, Suc n))
         \<and> (fst (cache_lookup e srv n qname qtype) = Some (rrsets entry)
              \<longleftrightarrow> now_at e n < expiry entry)
         \<and> (now_at e n \<ge> expiry entry \<longrightarrow>
              fst (cache_lookup e srv n qname qtype) = None
              \<and> cache (fst (snd (cache_lookup e srv n qname qtype))) (cache_key qname qtype) = None)
         \<and> cache (fst (cache_store e srv m q t rs)) (cache_key qname qtype) \<noteq> None"
proof -
  have look: "cache_lookup e srv n qname qtype =
           (if now_at e n < expiry entry then (Some (rrsets entry), srv, Suc n)
            else (None, srv\<lparr>cache := (cache srv)(cache_key qname qtype := None)\<rparr>, Suc n))"
    using assms by (simp add: cache_lookup_def fresh_def Let_def)
  have keep: "cache (fst (cache_store e srv m q t rs)) (cache_key qname qtype) \<noteq> None"
    using assms cache_store_keeps_keys [of srv "cache_key qname qtype"] by simp
  show ?thesis
    unfolding look using keep by simp
qed

theorem cache_lookup_fresh_iff_witness:
  "cache_lookup quiet_env cached_server 3 ''Example.COM.'' A
     = (Some [example_rrset], cached_server, 4)
   \<and> fst (cache_lookup quiet_env cached_server 5 ''Example.COM.'' A) = None
   \<and> cache (fst (snd (cache_lookup quiet_env cached_server 5 ''Example.COM.'' A)))
        (''example.com.'', A) = None"
proof -
  have hyp: "cache cached_server (cache_key ''Example.COM.'' A)
               = Some \<lparr>rrsets = [example_rrset], expiry = 5\<rparr>"
    unfolding example_key by (rule cached_server_entry)
  have at3: "cache_lookup quiet_env cached_server 3 ''Example.COM.'' A
               = (Some [example_rrset], cached_server, 4)"
    using cache_lookup_fresh_iff [OF hyp, of quiet_env 3] by (simp add: quiet_now)
  have at5: "fst (cache_lookup quiet_env cached_server 5 ''Example.COM.'' A) = None
      \<and> cache (fst (snd (cache_lookup quiet_env cached_server 5 ''Example.COM.'' A)))
           (cache_key ''Example.COM.'' A) = None"
    using cache_lookup_fresh_iff [OF hyp, of quiet_env 5] by (simp add: quiet_now)
  show ?thesis
    using at3 at5 unfolding example_key by simp
qed

text \<open>
  C3. When the cache is enabled and some RRset carries a TTL, the entry stored expires at
  the clock reading plus the least TTL of the set supplied; in every other case, and so
  whenever that least TTL is zero or negative, the store changes nothing, and a lookup of
  a key that nothing else stored returns nothing.
\<close>

theorem cache_store_min_ttl:
  "cache_store e srv n qname qtype rs =
     (if cache_enabled srv \<and> ttl_values_of rs \<noteq> [] \<and> 0 < Min (set (ttl_values_of rs))
      then (srv\<lparr>cache := (cache srv)(cache_key qname qtype \<mapsto>
              \<lparr>rrsets = rs,
               expiry = now_at e n + real_of_int (Min (set (ttl_values_of rs)))\<rparr>)\<rparr>, Suc n)
      else (srv, n))
   \<and> (ttl_values_of rs \<noteq> [] \<and> Min (set (ttl_values_of rs)) \<le> 0 \<longrightarrow>
        cache_store e srv n qname qtype rs = (srv, n)
        \<and> (cache srv (cache_key qname qtype) = None \<longrightarrow>
             fst (cache_lookup e (fst (cache_store e srv n qname qtype rs)) m qname qtype)
               = None))"
proof -
  have store: "cache_store e srv n qname qtype rs =
     (if cache_enabled srv \<and> ttl_values_of rs \<noteq> [] \<and> 0 < Min (set (ttl_values_of rs))
      then (srv\<lparr>cache := (cache srv)(cache_key qname qtype \<mapsto>
              \<lparr>rrsets = rs,
               expiry = now_at e n + real_of_int (Min (set (ttl_values_of rs)))\<rparr>)\<rparr>, Suc n)
      else (srv, n))"
  proof (cases "ttl_values_of rs = []")
    case True
    then show ?thesis by (simp add: cache_store_def)
  next
    case False
    then have "min_list (ttl_values_of rs) = Min (set (ttl_values_of rs))"
      by (rule min_list_Min)
    with False show ?thesis
      by (simp add: cache_store_def Let_def not_le del: Min_gr_iff Min_le_iff)
  qed
  have absent: "cache srv (cache_key qname qtype) = None \<Longrightarrow>
      fst (cache_lookup e srv m qname qtype) = None"
    by (simp add: cache_lookup_def Let_def)
  show ?thesis
    unfolding store using absent by (simp add: not_less [symmetric])
qed

lemma example_ttl_values:
  "ttl_values_of [example_rrset, stale_rrset] = [300, 0]"
  "ttl_values_of [example_rrset, short_rrset] = [300, 60]"
  by (simp_all add: ttl_values_of_def example_rrset_def stale_rrset_def short_rrset_def)

theorem cache_store_min_ttl_witness:
  "cache_store quiet_env example_server 7 ''example.com.'' A [example_rrset, stale_rrset]
     = (example_server, 7)
   \<and> fst (cache_lookup quiet_env
            (fst (cache_store quiet_env example_server 7 ''example.com.'' A
                   [example_rrset, stale_rrset])) 8 ''example.com.'' A) = None
   \<and> cache_store quiet_env example_server 7 ''example.com.'' A [example_rrset, short_rrset]
     = (example_server\<lparr>cache := [cache_key ''example.com.'' A \<mapsto>
           \<lparr>rrsets = [example_rrset, short_rrset], expiry = 67\<rparr>]\<rparr>, 8)"
proof -
  have empty: "cache example_server (cache_key ''example.com.'' A) = None"
    by (simp add: example_server_def)
  have enabled: "cache_enabled example_server" "cache example_server = Map.empty"
    by (simp_all add: example_server_def)
  have stale: "cache_store quiet_env example_server 7 ''example.com.'' A
                 [example_rrset, stale_rrset] = (example_server, 7)
     \<and> fst (cache_lookup quiet_env
            (fst (cache_store quiet_env example_server 7 ''example.com.'' A
                   [example_rrset, stale_rrset])) 8 ''example.com.'' A) = None"
    using cache_store_min_ttl [of quiet_env example_server 7 "''example.com.''" A
        "[example_rrset, stale_rrset]" 8] empty
    by (auto simp: example_ttl_values)
  have short: "cache_store quiet_env example_server 7 ''example.com.'' A
                 [example_rrset, short_rrset]
     = (example_server\<lparr>cache := [cache_key ''example.com.'' A \<mapsto>
           \<lparr>rrsets = [example_rrset, short_rrset], expiry = 67\<rparr>]\<rparr>, 8)"
    using cache_store_min_ttl [of quiet_env example_server 7 "''example.com.''" A
        "[example_rrset, short_rrset]" 8]
    by (simp add: example_ttl_values enabled quiet_now)
  from stale short show ?thesis
    by blast
qed

section \<open>The for loop over the servers of a pass\<close>

lemma query_servers_skip:
  assumes "query_server e n srv_ip qname qtype rd = (QTimeout, n1)
           \<or> query_server e n srv_ip qname qtype rd = (QOSError, n1)"
  shows "query_servers e qname qtype rd start label (srv_ip # rest) last_rcode trace n
           = query_servers e qname qtype rd start label rest last_rcode trace n1"
  using assms by auto

lemma query_servers_raise:
  assumes "query_server e n srv_ip qname qtype rd = (QOtherError, n1)"
  shows "query_servers e qname qtype rd start label (srv_ip # rest) last_rcode trace n
           = (Raise QueryError, last_rcode, trace, n1)"
  using assms by simp

lemma query_servers_got:
  assumes "query_server e n srv_ip qname qtype rd = (Got r rtt_s, n1)"
  shows "query_servers e qname qtype rd start label (srv_ip # rest) last_rcode trace n
           = (case examine e (n1 + 2) r of
                (Answered a rc, n3) \<Rightarrow>
                  (Return a rc, rcode r, trace @ [hop_event e start label srv_ip r rtt_s n1], n3)
              | (Referred ips, n3) \<Rightarrow>
                  (Break ips, rcode r, trace @ [hop_event e start label srv_ip r rtt_s n1], n3)
              | (Unhelpful, n3) \<Rightarrow>
                  query_servers e qname qtype rd start label rest (rcode r)
                    (trace @ [hop_event e start label srv_ip r rtt_s n1]) n3
              | (Failed x, n3) \<Rightarrow>
                  (Raise x, rcode r, trace @ [hop_event e start label srv_ip r rtt_s n1], n3))"
  using assms
  by (simp add: examine_def hop_event_def Let_def split: sum.splits prod.splits)


declare query_servers.simps(2) [simp del]

lemma examine_answered:
  "examine e n r = (Answered a rc, m) \<Longrightarrow>
     (a = [] \<and> rc = NXDOMAIN) \<or> (a \<noteq> [] \<and> rc = NOERROR)"
  by (auto simp: examine_def split: if_splits sum.splits prod.splits)

lemma examine_referred: "examine e n r = (Referred ips, m) \<Longrightarrow> ips \<noteq> []"
  by (auto simp: examine_def split: if_splits sum.splits prod.splits)


lemma query_servers_induct [consumes 1, case_names Nil Skip QError Answered Referred Unhelpful Failed]:
  assumes run: "query_servers e qname qtype rd start label servers last_rcode trace n = res"
    and nil: "\<And>l t n. P [] l t n (Exhausted, l, t, n)"
    and skip: "\<And>s rest l t n n1 res.
        query_server e n s qname qtype rd = (QTimeout, n1)
          \<or> query_server e n s qname qtype rd = (QOSError, n1) \<Longrightarrow>
        query_servers e qname qtype rd start label rest l t n1 = res \<Longrightarrow>
        P rest l t n1 res \<Longrightarrow> P (s # rest) l t n res"
    and qerr: "\<And>s rest l t n n1.
        query_server e n s qname qtype rd = (QOtherError, n1) \<Longrightarrow>
        P (s # rest) l t n (Raise QueryError, l, t, n1)"
    and answered: "\<And>s rest l t n n1 r rtt_s a rc n3.
        query_server e n s qname qtype rd = (Got r rtt_s, n1) \<Longrightarrow>
        examine e (n1 + 2) r = (Answered a rc, n3) \<Longrightarrow>
        P (s # rest) l t n
          (Return a rc, rcode r, t @ [hop_event e start label s r rtt_s n1], n3)"
    and referred: "\<And>s rest l t n n1 r rtt_s ips n3.
        query_server e n s qname qtype rd = (Got r rtt_s, n1) \<Longrightarrow>
        examine e (n1 + 2) r = (Referred ips, n3) \<Longrightarrow>
        P (s # rest) l t n
          (Break ips, rcode r, t @ [hop_event e start label s r rtt_s n1], n3)"
    and unhelpful: "\<And>s rest l t n n1 r rtt_s n3 res.
        query_server e n s qname qtype rd = (Got r rtt_s, n1) \<Longrightarrow>
        examine e (n1 + 2) r = (Unhelpful, n3) \<Longrightarrow>
        query_servers e qname qtype rd start label rest (rcode r)
          (t @ [hop_event e start label s r rtt_s n1]) n3 = res \<Longrightarrow>
        P rest (rcode r) (t @ [hop_event e start label s r rtt_s n1]) n3 res \<Longrightarrow>
        P (s # rest) l t n res"
    and failed: "\<And>s rest l t n n1 r rtt_s x n3.
        query_server e n s qname qtype rd = (Got r rtt_s, n1) \<Longrightarrow>
        examine e (n1 + 2) r = (Failed x, n3) \<Longrightarrow>
        P (s # rest) l t n
          (Raise x, rcode r, t @ [hop_event e start label s r rtt_s n1], n3)"
  shows "P servers last_rcode trace n res"
  using run
proof (induction servers arbitrary: last_rcode trace n)
  case Nil
  then show ?case using nil by auto
next
  case (Cons s rest)
  obtain qr n1 where q: "query_server e n s qname qtype rd = (qr, n1)"
    by (cases "query_server e n s qname qtype rd")
  show ?case
  proof (cases qr)
    case (Got r rtt_s)
    obtain v n3 where ex: "examine e (n1 + 2) r = (v, n3)"
      by (cases "examine e (n1 + 2) r")
    note q' = q [unfolded Got]
    show ?thesis
    proof (cases v)
      case (Answered a rc)
      with Cons.prems answered [OF q' ex [unfolded Answered]] q' ex
      show ?thesis by (auto simp: query_servers_got)
    next
      case (Referred ips)
      with Cons.prems referred [OF q' ex [unfolded Referred]] q' ex
      show ?thesis by (auto simp: query_servers_got)
    next
      case Unhelpful
      from Cons.prems q' ex Unhelpful
      have rest: "query_servers e qname qtype rd start label rest (rcode r)
          (trace @ [hop_event e start label s r rtt_s n1]) n3 = res"
        by (simp add: query_servers_got)
      from unhelpful [OF q' ex [unfolded Unhelpful] rest Cons.IH [OF rest]]
      show ?thesis .
    next
      case (Failed x)
      with Cons.prems failed [OF q' ex [unfolded Failed]] q' ex
      show ?thesis by (auto simp: query_servers_got)
    qed
  next
    case QTimeout
    with Cons.prems q have rest:
      "query_servers e qname qtype rd start label rest last_rcode trace n1 = res"
      by (simp add: query_servers_skip)
    from q QTimeout skip [OF _ rest Cons.IH [OF rest]] show ?thesis by simp
  next
    case QOSError
    with Cons.prems q have rest:
      "query_servers e qname qtype rd start label rest last_rcode trace n1 = res"
      by (simp add: query_servers_skip)
    from q QOSError skip [OF _ rest Cons.IH [OF rest]] show ?thesis by simp
  next
    case QOtherError
    with Cons.prems q qerr [of n s n1] show ?thesis by (auto simp: query_servers_raise)
  qed
qed

lemma query_servers_return:
  assumes "query_servers e qname qtype rd start label servers last_rcode trace n = res"
  shows "fst res = Return answers rc \<Longrightarrow>
     (answers = [] \<and> rc = NXDOMAIN) \<or> (answers \<noteq> [] \<and> rc = NOERROR)"
  using assms
  by (induction rule: query_servers_induct) (auto dest: examine_answered)

lemma query_servers_break:
  assumes "query_servers e qname qtype rd start label servers last_rcode trace n = res"
  shows "fst res = Break ips \<Longrightarrow> ips \<noteq> []"
  using assms
  by (induction rule: query_servers_induct) (auto dest: examine_referred)

lemma hop_event_fields [simp]:
  "step (hop_event e start label s r rtt_s n1) = label"
  "server (hop_event e start label s r rtt_s n1) = s"
  "cache_status (hop_event e start label s r rtt_s n1) = ''MISS''"
  "response (hop_event e start label s r rtt_s n1) = summarize e r"
  by (simp_all add: hop_event_def)

lemma query_servers_trace:
  assumes "query_servers e qname qtype rd start label servers last_rcode trace n = res"
  shows "\<exists>evs. fst (snd (snd res)) = trace @ evs \<and> (\<forall>ev \<in> set evs. step ev = label)"
  using assms
proof (induction rule: query_servers_induct)
  case (Unhelpful s rest l t n n1 r rtt_s n3 res)
  then obtain evs where
    "fst (snd (snd res)) = (t @ [hop_event e start label s r rtt_s n1]) @ evs"
    "\<forall>ev \<in> set evs. step ev = label" by blast
  then have "fst (snd (snd res)) = t @ (hop_event e start label s r rtt_s n1 # evs)
      \<and> (\<forall>ev \<in> set (hop_event e start label s r rtt_s n1 # evs). step ev = label)"
    by simp
  then show ?case by blast
qed (auto intro: exI [of _ "[]"] exI [of _ "[x]" for x])

section \<open>Resolution: cache hit, NXDOMAIN, fall-through\<close>

lemma rcode_distinct: "NOERROR \<noteq> NXDOMAIN" "NXDOMAIN \<noteq> NOERROR"
  by (simp_all add: NOERROR_def NXDOMAIN_def)

lemma cache_lookup_miss_cache:
  "cache_lookup e srv n qname qtype = (None, srv1, n1) \<Longrightarrow>
     cache srv1 = (cache srv)(cache_key qname qtype := None)"
  by (auto simp: cache_lookup_def fresh_def Let_def split: option.splits if_splits)

lemma cache_lookup_absent:
  "cache srv (cache_key qname qtype) = None \<Longrightarrow> cache_lookup e srv n qname qtype = (None, srv, n)"
  by (simp add: cache_lookup_def Let_def)

lemma iterative_loop_Suc:
  "iterative_loop (Suc fuel) e qname qtype rd start servers depth last_rcode trace n =
     (if servers = [] then Some (Inr ([], last_rcode, trace), n)
      else case query_servers e qname qtype rd start (step_name depth) servers last_rcode trace n of
             (Return answers rc, last_rcode', trace', n') \<Rightarrow> Some (Inr (answers, rc, trace'), n')
           | (Break servers', last_rcode', trace', n') \<Rightarrow>
               iterative_loop fuel e qname qtype rd start servers' (next_depth depth)
                 last_rcode' trace' n'
           | (Exhausted, last_rcode', trace', n') \<Rightarrow> Some (Inr ([], last_rcode', trace'), n')
           | (Raise x, last_rcode', trace', n') \<Rightarrow> Some (Inl x, n'))"
  by (simp add: Let_def)

declare iterative_loop.simps(2) [simp del]

lemma iterative_loop_answers:
  "iterative_loop fuel e qname qtype rd start servers depth last_rcode trace n
     = Some (Inr (answers, rc, trace'), n') \<Longrightarrow>
   answers \<noteq> [] \<Longrightarrow> rc = NOERROR"
proof (induction fuel arbitrary: servers depth last_rcode trace n)
  case 0
  then show ?case by simp
next
  case (Suc fuel)
  show ?case
  proof (cases "servers = []")
    case True
    with Suc.prems show ?thesis by (simp add: iterative_loop_Suc)
  next
    case False
    obtain out l t m where qs:
      "query_servers e qname qtype rd start (step_name depth) servers last_rcode trace n
         = (out, l, t, m)"
      by (metis prod_cases4)
    show ?thesis
    proof (cases out)
      case (Return a r)
      with Suc.prems False qs query_servers_return [OF qs, of a r]
      show ?thesis by (auto simp: iterative_loop_Suc)
    next
      case (Break servers')
      with Suc.prems False qs Suc.IH [of servers' "next_depth depth" l t m]
      show ?thesis by (simp add: iterative_loop_Suc)
    next
      case Exhausted
      with Suc.prems False qs show ?thesis by (simp add: iterative_loop_Suc)
    next
      case (Raise x)
      with Suc.prems False qs show ?thesis by (simp add: iterative_loop_Suc)
    qed
  qed
qed

lemma finish_iterative_nxdomain:
  assumes "finish_iterative e srv1 qname qtype
             (iterative_lookup fuel e srv1 n1 qname qtype rd)
           = Some (Inr (answers, rc, trace, hit), srv', n')"
    and "rc = NXDOMAIN"
  shows "answers = [] \<and> \<not> hit \<and> srv' = srv1"
proof -
  from assms(1) obtain a r t m where it:
    "iterative_lookup fuel e srv1 n1 qname qtype rd = Some (Inr (a, r, t), m)"
    by (auto simp: finish_iterative_def split: option.splits sum.splits prod.splits)
  from it have "a \<noteq> [] \<Longrightarrow> r = NOERROR"
    unfolding iterative_lookup_def by (rule iterative_loop_answers)
  with assms it show ?thesis
    by (auto simp: finish_iterative_def rcode_distinct split: if_splits prod.splits)
qed

text \<open>
  C2. A resolution that returns NXDOMAIN, with or without a recursive attempt before the
  iterative path, returns no records and is not a cache hit; the cache it leaves behind is
  the old one without the key of the query, so nothing was stored, and a lookup of that
  key afterwards, at any time, returns nothing.
\<close>

theorem nxdomain_not_cached:
  assumes "resolve fuel e srv n qname qtype recursion_requested
             = Some (Inr (answers, rc, trace, hit), srv', n')"
    and "rc = NXDOMAIN"
  shows "answers = [] \<and> \<not> hit
         \<and> cache srv' = (cache srv)(cache_key qname qtype := None)
         \<and> fst (cache_lookup e' srv' m qname qtype) = None"
proof -
  obtain c srv1 n1 where look: "cache_lookup e srv n qname qtype = (c, srv1, n1)"
    by (metis prod_cases3)
  have miss: "c = None"
  proof (cases c)
    case None
    then show ?thesis .
  next
    case (Some cached)
    with assms look show ?thesis
      by (simp add: resolve_def rcode_distinct)
  qed
  with look have srv1: "cache srv1 = (cache srv)(cache_key qname qtype := None)"
    using cache_lookup_miss_cache by blast
  have fin: "\<exists>k. finish_iterative e srv1 qname qtype
           (iterative_lookup fuel e srv1 k qname qtype recursion_requested)
         = Some (Inr (answers, rc, trace, hit), srv', n')"
    using assms look miss
    by (auto simp: resolve_def rcode_distinct split: if_splits prod.splits sum.splits)
  then have res: "answers = [] \<and> \<not> hit \<and> srv' = srv1"
    using finish_iterative_nxdomain assms(2) by blast
  with srv1 have gone: "cache srv' (cache_key qname qtype) = None"
    by simp
  from res srv1 gone show ?thesis
    by (simp add: cache_lookup_absent)
qed

text \<open>
  C4. When the cache lookup at the head of \<open>resolve\<close> returns records, the resolution
  returns them with NOERROR and a trace of exactly one event, whose cache status is HIT and
  whose round-trip time and total time are zero. No pass of the iterative loop is needed.
\<close>

theorem resolve_cache_hit:
  assumes "fst (cache_lookup e srv n qname qtype) = Some cached"
  shows "\<exists>ev srv' n'. resolve fuel e srv n qname qtype recursion_requested
            = Some (Inr (cached, NOERROR, [ev], True), srv', n')
          \<and> cache_status ev = ''HIT'' \<and> rtt ev = 0 \<and> total_time ev = 0"
proof -
  from assms obtain srv1 n1 where
    "cache_lookup e srv n qname qtype = (Some cached, srv1, n1)"
    by (metis fst_conv prod_cases3)
  then show ?thesis
    by (simp add: resolve_def cache_event_def)
qed

lemma recursive_lookup_failure:
  assumes "configured_nameservers e n1 = (nameservers, m)"
    and "resolve_at e (m + 1) nameservers qname qtype = SysTimeout
         \<or> resolve_at e (m + 1) nameservers qname qtype = SysNXDOMAIN
         \<or> (\<exists>r. resolve_at e (m + 1) nameservers qname qtype = SysAnswer r
                \<and> (answer r = [] \<or> rcode r \<noteq> NOERROR))"
  shows "\<exists>answers rc trace. recursive_lookup e n1 qname qtype = (Inr (answers, rc, trace), m + 4)
           \<and> (answers = [] \<or> rc \<noteq> NOERROR)"
  using assms by (auto simp: recursive_lookup_def Let_def)

text \<open>
  What the handler of the recursive lookup does catch falls through: with recursion
  requested and nothing in the cache, when the system resolver times out, reports NXDOMAIN,
  or answers without a NOERROR answer section, the resolution is the iterative lookup
  started after the recursive attempt.
\<close>

lemma recursive_failure_falls_through:
  assumes "cache_lookup e srv n qname qtype = (None, srv1, n1)"
    and "configured_nameservers e n1 = (nameservers, m)"
    and "resolve_at e (m + 1) nameservers qname qtype = SysTimeout
         \<or> resolve_at e (m + 1) nameservers qname qtype = SysNXDOMAIN
         \<or> (\<exists>r. resolve_at e (m + 1) nameservers qname qtype = SysAnswer r
                \<and> (answer r = [] \<or> rcode r \<noteq> NOERROR))"
  shows "resolve fuel e srv n qname qtype True
           = finish_iterative e srv1 qname qtype
               (iterative_lookup fuel e srv1 (m + 4) qname qtype True)
         \<and> (iterative_lookup fuel e srv1 (m + 4) qname qtype True
               = Some (Inr (a, r, t), n3) \<longrightarrow>
              (\<exists>srv' n'. resolve fuel e srv n qname qtype True
                 = Some (Inr (a, r, t, False), srv', n')))"
proof -
  from recursive_lookup_failure [OF assms(2,3)] obtain answers rc trace where
    "recursive_lookup e n1 qname qtype = (Inr (answers, rc, trace), m + 4)"
    "answers = [] \<or> rc \<noteq> NOERROR" by blast
  with assms(1) have fall: "resolve fuel e srv n qname qtype True
           = finish_iterative e srv1 qname qtype
               (iterative_lookup fuel e srv1 (m + 4) qname qtype True)"
    by (auto simp: resolve_def)
  show ?thesis
    unfolding fall by (auto simp: finish_iterative_def split: prod.splits)
qed

lemma quiet_perf: "perf_at quiet_env n = real n"
  by (simp add: quiet_env_def)

lemma quiet_query: "query_server quiet_env n s q t rd = (QTimeout, n + 2)"
  by (simp add: query_server_def quiet_env_def)

lemma quiet_pass:
  "query_servers quiet_env q t rd start label servers l tr n
     = (Exhausted, l, tr, n + 2 * length servers)"
  by (induction servers arbitrary: n) (simp_all add: query_servers_skip quiet_query)

lemma quiet_iterative:
  "iterative_lookup (Suc 0) quiet_env example_server n q t rd
     = Some (Inr ([], SERVFAIL, []), n + 7)"
  by (simp add: iterative_lookup_def iterative_loop_Suc quiet_pass example_server_def)

lemma quiet_nameservers: "configured_nameservers quiet_env n = ([''8.8.8.8'', ''1.1.1.1''], n + 2)"
  by (simp add: configured_nameservers_def safe_system_nameservers_def quiet_env_def)

lemma quiet_falls_through:
  "resolve (Suc 0) quiet_env example_server 0 ''example.com.'' A True
     = Some (Inr ([], SERVFAIL, [], False), example_server, 13)"
proof -
  have miss: "cache_lookup quiet_env example_server 0 ''example.com.'' A
                = (None, example_server, 0)"
    by (simp add: cache_lookup_absent example_server_def)
  have timeout: "resolve_at quiet_env (2 + 1) [''8.8.8.8'', ''1.1.1.1''] ''example.com.'' A
                   = SysTimeout"
    by (simp add: quiet_env_def)
  have cfg: "configured_nameservers quiet_env 0 = ([''8.8.8.8'', ''1.1.1.1''], 2)"
    using quiet_nameservers [of 0] by simp
  have it: "iterative_lookup (Suc 0) quiet_env example_server (2 + 4) ''example.com.'' A True
              = Some (Inr ([], SERVFAIL, []), 13)"
    using quiet_iterative [of 6] by simp
  from recursive_failure_falls_through [OF miss cfg disjI1 [OF timeout], of "Suc 0"]
  show ?thesis
    unfolding it by (simp add: finish_iterative_def)
qed

lemma no_nameservers_escapes_general:
  assumes "cache_lookup e srv n qname qtype = (None, srv1, n1)"
    and "configured_nameservers e n1 = (nameservers, m)"
    and "resolve_at e (m + 1) nameservers qname qtype = SysNoNameservers"
  shows "resolve fuel e srv n qname qtype True = Some (Inl NoNameservers, srv1, m + 2)"
  using assms by (simp add: resolve_def recursive_lookup_def Let_def)

text \<open>
  C5. The claim fails on the code for a recursive attempt that yields no answer because
  every upstream nameserver fails: the system resolver then raises
  \<^verbatim>\<open>NoNameservers\<close>, which the handler of \<^verbatim>\<open>_recursive_lookup\<close> does not catch, so
  the exception leaves \<open>resolve\<close> and the iterative path is never entered, whatever
  the fuel.
\<close>

theorem no_nameservers_escapes:
  "resolve fuel servfail_env example_server 0 ''example.com.'' A True
     = Some (Inl NoNameservers, example_server, 4)"
proof -
  have miss: "cache_lookup servfail_env example_server 0 ''example.com.'' A
                = (None, example_server, 0)"
    by (simp add: cache_lookup_absent example_server_def)
  have cfg: "configured_nameservers servfail_env 0 = ([''8.8.8.8'', ''1.1.1.1''], 2)"
    by (simp add: configured_nameservers_def safe_system_nameservers_def servfail_env_def
        quiet_env_def)
  have raise: "resolve_at servfail_env (2 + 1) [''8.8.8.8'', ''1.1.1.1''] ''example.com.'' A
                 = SysNoNameservers"
    by (simp add: servfail_env_def)
  from no_nameservers_escapes_general [OF miss cfg raise] show ?thesis
    by simp
qed

theorem resolve_cache_hit_witness:
  "\<exists>ev srv' n'. resolve 0 quiet_env cached_server 3 ''Example.COM.'' A False
       = Some (Inr ([example_rrset], NOERROR, [ev], True), srv', n')
     \<and> cache_status ev = ''HIT'' \<and> rtt ev = 0 \<and> total_time ev = 0"
proof -
  have hit: "fst (cache_lookup quiet_env cached_server 3 ''Example.COM.'' A)
               = Some [example_rrset]"
    unfolding cache_lookup_def example_key Let_def cached_server_entry fresh_def
    by (simp add: quiet_now)
  from resolve_cache_hit [OF hit] show ?thesis .
qed

lemma nxdomain_query:
  "query_server nxdomain_env n s q t rd = (Got nxdomain_response 2, n + 3)"
  by (simp add: query_server_def nxdomain_env_def quiet_env_def)

lemma nxdomain_examine: "examine e n nxdomain_response = (Answered [] NXDOMAIN, n)"
  by (simp add: examine_def nxdomain_response_def rcode_distinct)

lemma lower_key: "cache_key ''example.com.'' A = (''example.com.'', A)"
  by code_simp

lemma nxdomain_rcode: "rcode nxdomain_response = NXDOMAIN"
  by (simp add: nxdomain_response_def)

lemma nxdomain_lookup:
  "cache_lookup nxdomain_env cached_server 5 ''example.com.'' A
     = (None, cached_server\<lparr>cache := (cache cached_server)((''example.com.'', A) := None)\<rparr>, 6)"
proof -
  show ?thesis
    unfolding cache_lookup_def lower_key Let_def cached_server_entry fresh_def
    by (simp add: nxdomain_env_def quiet_env_def)
qed

theorem nxdomain_not_cached_witness:
  "\<exists>tr srv' n'. resolve (Suc 0) nxdomain_env cached_server 5 ''example.com.'' A False
       = Some (Inr ([], NXDOMAIN, tr, False), srv', n')
     \<and> cache srv' (cache_key ''example.com.'' A) = None
     \<and> fst (cache_lookup nxdomain_env srv' n' ''example.com.'' A) = None"
proof -
  have roots: "root_servers (cached_server\<lparr>cache := c\<rparr>)
      = [''198.41.0.4'', ''199.9.14.201'', ''192.33.4.12'']" for c
    by (simp add: cached_server_def example_server_def)
  have pass: "query_servers nxdomain_env ''example.com.'' A False (perf_at nxdomain_env 6)
        ''Root'' [''198.41.0.4'', ''199.9.14.201'', ''192.33.4.12''] SERVFAIL [] 7
      = (Return [] NXDOMAIN, NXDOMAIN,
         [hop_event nxdomain_env (perf_at nxdomain_env 6) ''Root'' ''198.41.0.4''
            nxdomain_response 2 10], 12)"
    using nxdomain_query [of 7] nxdomain_examine [of nxdomain_env 12]
    by (simp add: query_servers_got nxdomain_rcode)
  have it: "iterative_lookup (Suc 0) nxdomain_env
        (cached_server\<lparr>cache := (cache cached_server)((''example.com.'', A) := None)\<rparr>)
        6 ''example.com.'' A False
      = Some (Inr ([], NXDOMAIN,
           [hop_event nxdomain_env (perf_at nxdomain_env 6) ''Root'' ''198.41.0.4''
              nxdomain_response 2 10]), 12)"
    by (simp add: iterative_lookup_def iterative_loop_Suc roots step_name_def pass)
  have run: "resolve (Suc 0) nxdomain_env cached_server 5 ''example.com.'' A False
      = Some (Inr ([], NXDOMAIN,
                [hop_event nxdomain_env (perf_at nxdomain_env 6) ''Root'' ''198.41.0.4''
                   nxdomain_response 2 10], False),
              cached_server\<lparr>cache := (cache cached_server)((''example.com.'', A) := None)\<rparr>,
              12)"
    unfolding resolve_def nxdomain_lookup
    by (simp add: it finish_iterative_def)
  from nxdomain_not_cached [OF run refl, of nxdomain_env 12]
  have after: "cache (cached_server\<lparr>cache :=
          (cache cached_server)((''example.com.'', A) := None)\<rparr>)
        (cache_key ''example.com.'' A) = None
      \<and> fst (cache_lookup nxdomain_env
            (cached_server\<lparr>cache := (cache cached_server)((''example.com.'', A) := None)\<rparr>)
            12 ''example.com.'' A) = None"
    by (simp add: lower_key)
  from run after show ?thesis
    by blast
qed

section \<open>The iterative lookup: phases, skipped servers\<close>

lemma rtype_distinct: "A \<noteq> NS" "A \<noteq> AAAA" "NS \<noteq> A" "NS \<noteq> AAAA" "AAAA \<noteq> A" "AAAA \<noteq> NS"
  by (simp_all add: A_def NS_def AAAA_def)

lemma glue_referral_fields [simp]:
  "rcode (glue_referral ns glue) = NOERROR"
  "answer (glue_referral ns glue) = []"
  "additional (glue_referral ns glue) = glue"
  by (simp_all add: glue_referral_def)

lemma referral_glue:
  "extract_glue_ips root_referral = [''192.5.6.30'', ''2001:503:a83e::2:30'']"
  "extract_glue_ips tld_referral = [''199.43.135.53'']"
  "extract_glue_ips deep_referral = [''10.0.0.9'']"
  by (simp_all add: extract_glue_ips_def root_referral_def tld_referral_def deep_referral_def
      a_glue_def aaaa_glue_def rr_address_def rtype_distinct)

lemma referral_fields [simp]:
  "rcode root_referral = NOERROR" "answer root_referral = []"
  "rcode tld_referral = NOERROR" "answer tld_referral = []"
  "rcode deep_referral = NOERROR" "answer deep_referral = []"
  by (simp_all add: root_referral_def tld_referral_def deep_referral_def)

lemma examine_glue:
  "rcode r = NOERROR \<Longrightarrow> answer r = [] \<Longrightarrow> extract_glue_ips r \<noteq> [] \<Longrightarrow>
     examine e n r = (Referred (extract_glue_ips r), n)"
  by (simp add: examine_def rcode_distinct)

lemma referral_examine:
  "examine e n root_referral = (Referred [''192.5.6.30'', ''2001:503:a83e::2:30''], n)"
  "examine e n tld_referral = (Referred [''199.43.135.53''], n)"
  "examine e n deep_referral = (Referred [''10.0.0.9''], n)"
  using examine_glue [of root_referral e n] examine_glue [of tld_referral e n]
    examine_glue [of deep_referral e n]
  by (simp_all add: referral_glue)

lemma final_examine: "examine e n final_answer = (Answered [example_rrset] NOERROR, n)"
  by (simp add: examine_def final_answer_def)

lemma chain_query:
  "query_server chain_env n s q t rd =
     (case chain_udp s of
        UdpResponse r \<Rightarrow> (Got r 2, n + 3)
      | UdpTimeout \<Rightarrow> (QTimeout, n + 2)
      | UdpOSError \<Rightarrow> (QOSError, n + 2)
      | UdpOtherError \<Rightarrow> (QOtherError, n + 2))"
  by (simp add: query_server_def chain_env_def quiet_env_def split: udp_outcome.splits)

lemma chain_udp_values:
  "chain_udp ''198.41.0.4'' = UdpTimeout"
  "chain_udp ''199.9.14.201'' = UdpTimeout"
  "chain_udp ''192.33.4.12'' = UdpResponse root_referral"
  "chain_udp ''192.5.6.30'' = UdpResponse tld_referral"
  "chain_udp ''199.43.135.53'' = UdpResponse deep_referral"
  "chain_udp ''10.0.0.9'' = UdpResponse final_answer"
  by (simp_all add: chain_udp_def)

lemma chain_pass_root:
  "query_servers chain_env q t rd start label
       [''198.41.0.4'', ''199.9.14.201'', ''192.33.4.12''] l tr n
     = (Break [''192.5.6.30'', ''2001:503:a83e::2:30''], NOERROR,
        tr @ [hop_event chain_env start label ''192.33.4.12'' root_referral 2 (n + 7)], n + 9)"
  by (simp add: query_servers_skip query_servers_got chain_query chain_udp_values
      referral_examine ac_simps)


lemma chain_pass_single:
  "chain_udp s = UdpResponse r \<Longrightarrow> examine chain_env (n + 5) r = (Referred ips, n + 5) \<Longrightarrow>
   query_servers chain_env q t rd start label (s # rest) l tr n
     = (Break ips, rcode r, tr @ [hop_event chain_env start label s r 2 (n + 3)], n + 5)"
  by (simp add: query_servers_got chain_query ac_simps)

lemma chain_pass_final:
  "query_servers chain_env q t rd start label [''10.0.0.9''] l tr n
     = (Return [example_rrset] NOERROR, NOERROR,
        tr @ [hop_event chain_env start label ''10.0.0.9'' final_answer 2 (n + 3)], n + 5)"
  using final_examine [of chain_env "n + 5"]
  by (simp add: query_servers_got chain_query chain_udp_values ac_simps final_answer_def)

lemma step_name_values:
  "step_name 0 = ''Root''" "step_name (Suc 0) = ''TLD''" "step_name 2 = ''Authoritative''"
  by (simp_all add: step_name_def)

lemma next_depth_values:
  "next_depth 0 = Suc 0" "next_depth (Suc 0) = 2" "next_depth 2 = 2"
  by (simp_all add: next_depth_def)

lemma chain_run:
  "iterative_loop (Suc (Suc (Suc (Suc 0)))) chain_env q t rd start
       [''198.41.0.4'', ''199.9.14.201'', ''192.33.4.12''] 0 SERVFAIL [] n
     = Some (Inr ([example_rrset], NOERROR,
          [hop_event chain_env start ''Root'' ''192.33.4.12'' root_referral 2 (n + 7),
           hop_event chain_env start ''TLD'' ''192.5.6.30'' tld_referral 2 (n + 12),
           hop_event chain_env start ''Authoritative'' ''199.43.135.53'' deep_referral 2 (n + 17),
           hop_event chain_env start ''Authoritative'' ''10.0.0.9'' final_answer 2 (n + 22)]),
        n + 24)"
proof -
  have p1: "query_servers chain_env q t rd start ''TLD''
       [''192.5.6.30'', ''2001:503:a83e::2:30''] l tr (n + 9)
     = (Break [''199.43.135.53''], NOERROR,
        tr @ [hop_event chain_env start ''TLD'' ''192.5.6.30'' tld_referral 2 (n + 12)], n + 14)"
    for l tr
    using chain_pass_single [of "''192.5.6.30''" tld_referral "n + 9" "[''199.43.135.53'']"]
    by (simp add: chain_udp_values referral_examine ac_simps)
  have p2: "query_servers chain_env q t rd start ''Authoritative''
       [''199.43.135.53''] l tr (n + 14)
     = (Break [''10.0.0.9''], NOERROR,
        tr @ [hop_event chain_env start ''Authoritative'' ''199.43.135.53'' deep_referral 2 (n + 17)],
        n + 19)" for l tr
    using chain_pass_single [of "''199.43.135.53''" deep_referral "n + 14" "[''10.0.0.9'']"]
    by (simp add: chain_udp_values referral_examine ac_simps)
  have p3: "query_servers chain_env q t rd start ''Authoritative'' [''10.0.0.9''] l tr (n + 19)
     = (Return [example_rrset] NOERROR, NOERROR,
        tr @ [hop_event chain_env start ''Authoritative'' ''10.0.0.9'' final_answer 2 (n + 22)],
        n + 24)" for l tr
    using chain_pass_final [of q t rd start "''Authoritative''" l tr "n + 19"]
    by (simp add: ac_simps)
  show ?thesis
    by (simp add: iterative_loop_Suc chain_pass_root step_name_values next_depth_values
        p1 p2 p3)
qed

lemma next_depth_funpow: "(next_depth ^^ k) 0 = min k 2"
  by (induction k) (auto simp: next_depth_def)

lemma four: "4 = Suc (Suc (Suc (Suc 0)))" "3 = Suc (Suc (Suc 0))"
  by simp_all

lemma example_roots:
  "root_servers example_server = [''198.41.0.4'', ''199.9.14.201'', ''192.33.4.12'']"
  by (simp add: example_server_def)

lemma chain_lookup:
  "iterative_lookup 4 chain_env example_server 0 q t rd
     = Some (Inr ([example_rrset], NOERROR,
          [hop_event chain_env (perf_at chain_env 0) ''Root'' ''192.33.4.12'' root_referral 2 8,
           hop_event chain_env (perf_at chain_env 0) ''TLD'' ''192.5.6.30'' tld_referral 2 13,
           hop_event chain_env (perf_at chain_env 0) ''Authoritative'' ''199.43.135.53''
             deep_referral 2 18,
           hop_event chain_env (perf_at chain_env 0) ''Authoritative'' ''10.0.0.9''
             final_answer 2 23]),
        25)"
  unfolding iterative_lookup_def four example_roots
  using chain_run [of q t rd "perf_at chain_env 0" "Suc 0"] by simp

lemma query_servers_break_event:
  assumes "query_servers e qname qtype rd start label servers last_rcode trace n = res"
  shows "fst res = Break ips \<Longrightarrow> length trace < length (fst (snd (snd res)))"
  using assms
  by (induction rule: query_servers_induct) auto

lemma query_servers_events:
  assumes "query_servers e qname qtype rd start label servers last_rcode trace n
             = (out, l, t, m)"
  shows "t = trace @ drop (length trace) t"
    and "\<forall>ev \<in> set (drop (length trace) t). step ev = label"
    and "out = Break ips \<Longrightarrow> ips \<noteq> [] \<and> drop (length trace) t \<noteq> []"
proof -
  from query_servers_trace [OF assms] obtain evs where
    evs: "t = trace @ evs" "\<forall>ev \<in> set evs. step ev = label"
    by auto
  then show "t = trace @ drop (length trace) t"
    and "\<forall>ev \<in> set (drop (length trace) t). step ev = label"
    by simp_all
  show "ips \<noteq> [] \<and> drop (length trace) t \<noteq> []" if "out = Break ips"
    using that query_servers_break [OF assms, of ips] query_servers_break_event [OF assms, of ips]
    by simp
qed


lemma passes_break:
  assumes "servers \<noteq> []"
    and "query_servers e qname qtype rd start (step_name depth) servers last_rcode trace n
           = (Break servers', l, t, m)"
  shows "passes (Suc fuel) e qname qtype rd start servers depth last_rcode trace n
           = \<lparr>pass_label = step_name depth, pass_servers = servers,
               pass_result = Break servers', pass_events = drop (length trace) t\<rparr>
             # passes fuel e qname qtype rd start servers' (next_depth depth) l t m"
  using assms by simp

lemma passes_stop:
  assumes "servers \<noteq> []"
    and "query_servers e qname qtype rd start (step_name depth) servers last_rcode trace n
           = (out, l, t, m)"
    and "\<forall>ips. out \<noteq> Break ips"
  shows "passes (Suc fuel) e qname qtype rd start servers depth last_rcode trace n
           = [\<lparr>pass_label = step_name depth, pass_servers = servers,
                pass_result = out, pass_events = drop (length trace) t\<rparr>]"
  using assms by (cases out) simp_all

lemma passes_empty:
  "passes fuel e qname qtype rd start [] depth last_rcode trace n = []"
  by (cases fuel) simp_all

declare passes.simps(2) [simp del]

lemma passes_first:
  "passes fuel e qname qtype rd start servers depth last_rcode trace n = p # rest \<Longrightarrow>
     pass_servers p = servers \<and> pass_label p = step_name depth"
proof (cases fuel)
  case 0
  assume "passes fuel e qname qtype rd start servers depth last_rcode trace n = p # rest"
  with 0 show ?thesis by simp
next
  case (Suc f)
  assume ps: "passes fuel e qname qtype rd start servers depth last_rcode trace n = p # rest"
  then have ne: "servers \<noteq> []"
    using passes_empty by fastforce
  obtain out l t m where qs:
    "query_servers e qname qtype rd start (step_name depth) servers last_rcode trace n
       = (out, l, t, m)"
    by (metis prod_cases4)
  show ?thesis
  proof (cases "\<exists>ips. out = Break ips")
    case True
    then obtain ips where "out = Break ips" by blast
    with ps Suc ne qs passes_break [OF ne, of e qname qtype rd start depth last_rcode trace n
        ips l t m f]
    show ?thesis by auto
  next
    case False
    with ps Suc passes_stop [OF ne qs, of f] show ?thesis by auto
  qed
qed

lemma passes_trace:
  "iterative_loop fuel e qname qtype rd start servers depth last_rcode trace n
     = Some (Inr (answers, rc, trace'), n') \<Longrightarrow>
   trace' = trace @ concat (map pass_events
      (passes fuel e qname qtype rd start servers depth last_rcode trace n))
   \<and> (\<forall>ips. passes fuel e qname qtype rd start servers depth last_rcode trace n \<noteq> [] \<longrightarrow>
        pass_result (last (passes fuel e qname qtype rd start servers depth last_rcode trace n))
          \<noteq> Break ips)
   \<and> (servers \<noteq> [] \<longrightarrow>
        passes fuel e qname qtype rd start servers depth last_rcode trace n \<noteq> [])"
proof (induction fuel arbitrary: servers depth last_rcode trace n)
  case 0
  then show ?case by simp
next
  case (Suc fuel)
  show ?case
  proof (cases "servers = []")
    case True
    with Suc.prems show ?thesis
      by (simp add: iterative_loop_Suc passes_empty)
  next
    case False
    obtain out l t m where qs:
      "query_servers e qname qtype rd start (step_name depth) servers last_rcode trace n
         = (out, l, t, m)"
      by (metis prod_cases4)
    note ev = query_servers_events(1) [OF qs]
    show ?thesis
    proof (cases out)
      case (Break servers')
      with Suc.prems False qs have rest:
        "iterative_loop fuel e qname qtype rd start servers' (next_depth depth) l t m
           = Some (Inr (answers, rc, trace'), n')"
        by (simp add: iterative_loop_Suc)
      have ne: "servers' \<noteq> []"
        using query_servers_events(3) [OF qs, of servers'] Break by simp
      from Suc.IH [OF rest] ne have ih:
        "trace' = t @ concat (map pass_events
           (passes fuel e qname qtype rd start servers' (next_depth depth) l t m))"
        "\<forall>ips. pass_result (last (passes fuel e qname qtype rd start servers'
            (next_depth depth) l t m)) \<noteq> Break ips"
        "passes fuel e qname qtype rd start servers' (next_depth depth) l t m \<noteq> []"
        by simp_all
      have ps: "passes (Suc fuel) e qname qtype rd start servers depth last_rcode trace n
           = \<lparr>pass_label = step_name depth, pass_servers = servers,
               pass_result = Break servers', pass_events = drop (length trace) t\<rparr>
             # passes fuel e qname qtype rd start servers' (next_depth depth) l t m"
        using passes_break [OF False] qs Break by simp
      have "trace' = trace @ concat (map pass_events
          (passes (Suc fuel) e qname qtype rd start servers depth last_rcode trace n))"
        unfolding ps using ih(1) ev by simp
      with ih(2,3) show ?thesis
        unfolding ps by simp
    next
      case (Return a r)
      with Suc.prems False qs have "trace' = t"
        by (simp add: iterative_loop_Suc)
      with ev Return passes_stop [OF False qs, of fuel] show ?thesis by simp
    next
      case Exhausted
      with Suc.prems False qs have "trace' = t"
        by (simp add: iterative_loop_Suc)
      with ev Exhausted passes_stop [OF False qs, of fuel] show ?thesis by simp
    next
      case (Raise x)
      with Suc.prems False qs show ?thesis by (simp add: iterative_loop_Suc)
    qed
  qed
qed

lemma passes_labels:
  "k < length (passes fuel e qname qtype rd start servers depth last_rcode trace n) \<Longrightarrow>
   pass_label (passes fuel e qname qtype rd start servers depth last_rcode trace n ! k)
     = step_name ((next_depth ^^ k) depth)
   \<and> (\<forall>ev \<in> set (pass_events
          (passes fuel e qname qtype rd start servers depth last_rcode trace n ! k)).
        step ev = step_name ((next_depth ^^ k) depth))"
proof (induction fuel arbitrary: k servers depth last_rcode trace n)
  case 0
  then show ?case by simp
next
  case (Suc fuel)
  from Suc.prems have ne: "servers \<noteq> []"
    using passes_empty by fastforce
  obtain out l t m where qs:
    "query_servers e qname qtype rd start (step_name depth) servers last_rcode trace n
       = (out, l, t, m)"
    by (metis prod_cases4)
  note lab = query_servers_events(2) [OF qs]
  show ?case
  proof (cases "\<exists>ips. out = Break ips")
    case True
    then obtain servers' where br: "out = Break servers'" by blast
    have ps: "passes (Suc fuel) e qname qtype rd start servers depth last_rcode trace n
           = \<lparr>pass_label = step_name depth, pass_servers = servers,
               pass_result = Break servers', pass_events = drop (length trace) t\<rparr>
             # passes fuel e qname qtype rd start servers' (next_depth depth) l t m"
      using passes_break [OF ne] qs br by simp
    show ?thesis
    proof (cases k)
      case 0
      with lab show ?thesis unfolding ps by simp
    next
      case (Suc j)
      with Suc.prems have "j < length (passes fuel e qname qtype rd start servers'
          (next_depth depth) l t m)"
        unfolding ps by simp
      from Suc.IH [OF this] Suc show ?thesis
        unfolding ps by (simp add: funpow_swap1)
    qed
  next
    case False
    with Suc.prems passes_stop [OF ne qs, of fuel] lab show ?thesis by simp
  qed
qed

lemma passes_links:
  "Suc k < length (passes fuel e qname qtype rd start servers depth last_rcode trace n) \<Longrightarrow>
   pass_result (passes fuel e qname qtype rd start servers depth last_rcode trace n ! k)
     = Break (pass_servers
         (passes fuel e qname qtype rd start servers depth last_rcode trace n ! Suc k))
   \<and> pass_servers (passes fuel e qname qtype rd start servers depth last_rcode trace n ! Suc k)
       \<noteq> []
   \<and> pass_events (passes fuel e qname qtype rd start servers depth last_rcode trace n ! k)
       \<noteq> []"
proof (induction fuel arbitrary: k servers depth last_rcode trace n)
  case 0
  then show ?case by simp
next
  case (Suc fuel)
  from Suc.prems have ne: "servers \<noteq> []"
    using passes_empty by fastforce
  obtain out l t m where qs:
    "query_servers e qname qtype rd start (step_name depth) servers last_rcode trace n
       = (out, l, t, m)"
    by (metis prod_cases4)
  show ?case
  proof (cases "\<exists>ips. out = Break ips")
    case True
    then obtain servers' where br: "out = Break servers'" by blast
    define rest where
      "rest = passes fuel e qname qtype rd start servers' (next_depth depth) l t m"
    have ps: "passes (Suc fuel) e qname qtype rd start servers depth last_rcode trace n
           = \<lparr>pass_label = step_name depth, pass_servers = servers,
               pass_result = Break servers', pass_events = drop (length trace) t\<rparr> # rest"
      unfolding rest_def using passes_break [OF ne] qs br by simp
    note brk = query_servers_events(3) [OF qs br]
    show ?thesis
    proof (cases k)
      case 0
      with Suc.prems obtain p tl where cons: "rest = p # tl"
        unfolding ps by (cases rest) auto
      from passes_first [OF cons [unfolded rest_def]] have "pass_servers p = servers'"
        by simp
      with 0 cons brk show ?thesis unfolding ps by simp
    next
      case (Suc j)
      with Suc.prems have "Suc j < length rest"
        unfolding ps by simp
      from Suc.IH [OF this [unfolded rest_def]] Suc show ?thesis
        unfolding ps rest_def by simp
    qed
  next
    case False
    with Suc.prems passes_stop [OF ne qs, of fuel] show ?thesis by simp
  qed
qed

text \<open>
  C6. For an iterative lookup that returns, the trace is the concatenation, in order, of
  the events of the passes of the while loop. Pass \<open>k\<close> and all its events carry the
  label of the depth after \<open>k\<close> updates: Root for the first pass, TLD for the second,
  Authoritative for every later one. There is a pass \<open>k + 1\<close> only when pass \<open>k\<close> ended
  in a referral to a new, non-empty set of servers, which are then the servers of pass
  \<open>k + 1\<close>, and such a pass \<open>k\<close> has recorded at least one event; the last pass did not
  end in a referral. So the label advances once for each successful referral, never goes
  back, and stays Authoritative from the third pass on.
\<close>

theorem phase_advances_per_referral:
  assumes "iterative_lookup fuel e srv n qname qtype rd = Some (Inr (answers, rc, trace), n')"
    and "ps = passes fuel e qname qtype rd (perf_at e n) (root_servers srv) 0 SERVFAIL []
                (Suc n)"
  shows "trace = concat (map pass_events ps)
     \<and> (\<forall>k < length ps.
          pass_label (ps ! k) = step_name ((next_depth ^^ k) 0)
          \<and> pass_label (ps ! k)
              = (if k = 0 then ''Root'' else if k = 1 then ''TLD'' else ''Authoritative'')
          \<and> (\<forall>ev \<in> set (pass_events (ps ! k)). step ev = pass_label (ps ! k)))
     \<and> (\<forall>k. Suc k < length ps \<longrightarrow>
          pass_result (ps ! k) = Break (pass_servers (ps ! Suc k))
          \<and> pass_servers (ps ! Suc k) \<noteq> [] \<and> pass_events (ps ! k) \<noteq> [])
     \<and> (ps \<noteq> [] \<longrightarrow> pass_servers (hd ps) = root_servers srv
          \<and> (\<forall>ips. pass_result (last ps) \<noteq> Break ips))"
proof -
  have label: "step_name ((next_depth ^^ k) 0)
      = (if k = 0 then ''Root'' else if k = 1 then ''TLD'' else ''Authoritative'')" for k
    by (simp add: next_depth_funpow step_name_def min_def)
  from assms(1) have run: "iterative_loop fuel e qname qtype rd (perf_at e n) (root_servers srv)
      0 SERVFAIL [] (Suc n) = Some (Inr (answers, rc, trace), n')"
    by (simp add: iterative_lookup_def)
  from passes_trace [OF run] have tr: "trace = concat (map pass_events ps)"
    and last: "ps \<noteq> [] \<longrightarrow> (\<forall>ips. pass_result (last ps) \<noteq> Break ips)"
    unfolding assms(2) by simp_all
  have first: "ps \<noteq> [] \<longrightarrow> pass_servers (hd ps) = root_servers srv"
    using passes_first [of fuel e qname qtype rd "perf_at e n" "root_servers srv" 0 SERVFAIL
        "[]" "Suc n" "hd ps" "tl ps"]
    unfolding assms(2) [symmetric] by simp
  have labels: "\<forall>k < length ps.
          pass_label (ps ! k) = step_name ((next_depth ^^ k) 0)
          \<and> pass_label (ps ! k)
              = (if k = 0 then ''Root'' else if k = 1 then ''TLD'' else ''Authoritative'')
          \<and> (\<forall>ev \<in> set (pass_events (ps ! k)). step ev = pass_label (ps ! k))"
    unfolding label [symmetric] assms(2) using passes_labels by simp
  have links: "\<forall>k. Suc k < length ps \<longrightarrow>
          pass_result (ps ! k) = Break (pass_servers (ps ! Suc k))
          \<and> pass_servers (ps ! Suc k) \<noteq> [] \<and> pass_events (ps ! k) \<noteq> []"
    unfolding assms(2) using passes_links by blast
  from tr labels links first last show ?thesis
    by blast
qed


lemma chain_pass_tld:
  "query_servers chain_env q t rd start label [''192.5.6.30'', ''2001:503:a83e::2:30''] l tr n
     = (Break [''199.43.135.53''], NOERROR,
        tr @ [hop_event chain_env start label ''192.5.6.30'' tld_referral 2 (n + 3)], n + 5)"
  using chain_pass_single [of "''192.5.6.30''" tld_referral n "[''199.43.135.53'']"]
  by (simp add: chain_udp_values referral_examine)

lemma chain_pass_deep:
  "query_servers chain_env q t rd start label [''199.43.135.53''] l tr n
     = (Break [''10.0.0.9''], NOERROR,
        tr @ [hop_event chain_env start label ''199.43.135.53'' deep_referral 2 (n + 3)], n + 5)"
  using chain_pass_single [of "''199.43.135.53''" deep_referral n "[''10.0.0.9'']"]
  by (simp add: chain_udp_values referral_examine)

lemma chain_passes:
  "passes 4 chain_env q t rd start [''198.41.0.4'', ''199.9.14.201'', ''192.33.4.12''] 0
       SERVFAIL [] (Suc 0)
     = [\<lparr>pass_label = ''Root'',
          pass_servers = [''198.41.0.4'', ''199.9.14.201'', ''192.33.4.12''],
          pass_result = Break [''192.5.6.30'', ''2001:503:a83e::2:30''],
          pass_events = [hop_event chain_env start ''Root'' ''192.33.4.12'' root_referral 2 8]\<rparr>,
        \<lparr>pass_label = ''TLD'', pass_servers = [''192.5.6.30'', ''2001:503:a83e::2:30''],
          pass_result = Break [''199.43.135.53''],
          pass_events = [hop_event chain_env start ''TLD'' ''192.5.6.30'' tld_referral 2 13]\<rparr>,
        \<lparr>pass_label = ''Authoritative'', pass_servers = [''199.43.135.53''],
          pass_result = Break [''10.0.0.9''],
          pass_events = [hop_event chain_env start ''Authoritative'' ''199.43.135.53''
                           deep_referral 2 18]\<rparr>,
        \<lparr>pass_label = ''Authoritative'', pass_servers = [''10.0.0.9''],
          pass_result = Return [example_rrset] NOERROR,
          pass_events = [hop_event chain_env start ''Authoritative'' ''10.0.0.9''
                           final_answer 2 23]\<rparr>]"
proof -
  have p0: "query_servers chain_env q t rd start ''Root''
       [''198.41.0.4'', ''199.9.14.201'', ''192.33.4.12''] SERVFAIL [] (Suc 0)
     = (Break [''192.5.6.30'', ''2001:503:a83e::2:30''], NOERROR,
        [hop_event chain_env start ''Root'' ''192.33.4.12'' root_referral 2 8], 10)"
    using chain_pass_root [of q t rd start "''Root''" SERVFAIL "[]" "Suc 0"] by simp
  have p1: "query_servers chain_env q t rd start ''TLD''
       [''192.5.6.30'', ''2001:503:a83e::2:30''] l tr 10
     = (Break [''199.43.135.53''], NOERROR,
        tr @ [hop_event chain_env start ''TLD'' ''192.5.6.30'' tld_referral 2 13], 15)" for l tr
    using chain_pass_tld [of q t rd start "''TLD''" l tr 10] by simp
  have p2: "query_servers chain_env q t rd start ''Authoritative'' [''199.43.135.53''] l tr 15
     = (Break [''10.0.0.9''], NOERROR,
        tr @ [hop_event chain_env start ''Authoritative'' ''199.43.135.53'' deep_referral 2 18],
        20)" for l tr
    using chain_pass_deep [of q t rd start "''Authoritative''" l tr 15] by simp
  have p3: "query_servers chain_env q t rd start ''Authoritative'' [''10.0.0.9''] l tr 20
     = (Return [example_rrset] NOERROR, NOERROR,
        tr @ [hop_event chain_env start ''Authoritative'' ''10.0.0.9'' final_answer 2 23], 25)"
    for l tr
    using chain_pass_final [of q t rd start "''Authoritative''" l tr 20] by simp
  have s3: "passes (Suc 0) chain_env q t rd start [''10.0.0.9''] 2 l tr 20
     = [\<lparr>pass_label = ''Authoritative'', pass_servers = [''10.0.0.9''],
          pass_result = Return [example_rrset] NOERROR,
          pass_events = [hop_event chain_env start ''Authoritative'' ''10.0.0.9''
                           final_answer 2 23]\<rparr>]" for l tr
    using passes_stop [of "[''10.0.0.9'']" chain_env q t rd start 2 l tr 20
        "Return [example_rrset] NOERROR" _ _ _ 0]
    by (simp add: step_name_values p3)
  show ?thesis
    unfolding four
    by (simp add: passes_break [OF _ p0 [folded step_name_values(1)]]
        passes_break [OF _ p1 [folded step_name_values(2)]]
        passes_break [OF _ p2 [folded step_name_values(3)]]
        next_depth_values step_name_values s3)
qed

theorem phase_advances_per_referral_witness:
  "\<exists>tr n' ps. iterative_lookup 4 chain_env example_server 0 ''example.com.'' A False
       = Some (Inr ([example_rrset], NOERROR, tr), n')
     \<and> ps = passes 4 chain_env ''example.com.'' A False (perf_at chain_env 0)
              (root_servers example_server) 0 SERVFAIL [] (Suc 0)
     \<and> map pass_label ps = [''Root'', ''TLD'', ''Authoritative'', ''Authoritative'']
     \<and> map step tr = [''Root'', ''TLD'', ''Authoritative'', ''Authoritative'']
     \<and> tr = concat (map pass_events ps)
     \<and> (\<forall>k < length ps.
          pass_label (ps ! k) = step_name ((next_depth ^^ k) 0)
          \<and> pass_label (ps ! k)
              = (if k = 0 then ''Root'' else if k = 1 then ''TLD'' else ''Authoritative'')
          \<and> (\<forall>ev \<in> set (pass_events (ps ! k)). step ev = pass_label (ps ! k)))
     \<and> (\<forall>k. Suc k < length ps \<longrightarrow>
          pass_result (ps ! k) = Break (pass_servers (ps ! Suc k))
          \<and> pass_servers (ps ! Suc k) \<noteq> [] \<and> pass_events (ps ! k) \<noteq> [])
     \<and> (ps \<noteq> [] \<longrightarrow> pass_servers (hd ps) = root_servers example_server
          \<and> (\<forall>ips. pass_result (last ps) \<noteq> Break ips))"
proof -
  define tr where "tr =
      [hop_event chain_env (perf_at chain_env 0) ''Root'' ''192.33.4.12'' root_referral 2 8,
       hop_event chain_env (perf_at chain_env 0) ''TLD'' ''192.5.6.30'' tld_referral 2 13,
       hop_event chain_env (perf_at chain_env 0) ''Authoritative'' ''199.43.135.53''
         deep_referral 2 18,
       hop_event chain_env (perf_at chain_env 0) ''Authoritative'' ''10.0.0.9''
         final_answer 2 23]"
  define ps where "ps = passes 4 chain_env ''example.com.'' A False (perf_at chain_env 0)
              (root_servers example_server) 0 SERVFAIL [] (Suc 0)"
  have run: "iterative_lookup 4 chain_env example_server 0 ''example.com.'' A False
       = Some (Inr ([example_rrset], NOERROR, tr), 25)"
    unfolding tr_def by (rule chain_lookup)
  have labels: "map step tr = [''Root'', ''TLD'', ''Authoritative'', ''Authoritative'']"
    unfolding tr_def by simp
  have plabels: "map pass_label ps = [''Root'', ''TLD'', ''Authoritative'', ''Authoritative'']"
    unfolding ps_def example_roots chain_passes by simp
  note main = phase_advances_per_referral [OF run ps_def]
  show ?thesis
    by (rule exI [of _ tr], rule exI [of _ 25], rule exI [of _ ps], intro conjI,
        rule run, rule ps_def, rule plabels, rule labels, (rule main [THEN conjunct1]),
        (rule main [THEN conjunct2, THEN conjunct1]),
        (rule main [THEN conjunct2, THEN conjunct2, THEN conjunct1]),
        (rule main [THEN conjunct2, THEN conjunct2, THEN conjunct2]))
qed

text \<open>
  What a pass does when its first two servers time out (or fail with \<^verbatim>\<open>OSError\<close>) and
  the third answers with a referral that carries glue: it adds one event to the trace, the
  one of the third server, and the servers of the next pass are the glue addresses of that
  response, in the order of the additional section.
\<close>

lemma timeouts_leave_no_event:
  assumes "query_server e n s1 qname qtype rd = (QTimeout, n1)
           \<or> query_server e n s1 qname qtype rd = (QOSError, n1)"
    and "query_server e n1 s2 qname qtype rd = (QTimeout, n2)
         \<or> query_server e n1 s2 qname qtype rd = (QOSError, n2)"
    and "query_server e n2 s3 qname qtype rd = (Got r rtt_s, n3)"
    and "\<not> (rcode r = NOERROR \<and> answer r \<noteq> [])" and "rcode r \<noteq> NXDOMAIN"
    and "extract_glue_ips r \<noteq> []"
  shows "query_servers e qname qtype rd start label (s1 # s2 # s3 # rest) last_rcode trace n
           = (Break (extract_glue_ips r), rcode r,
              trace @ [hop_event e start label s3 r rtt_s n3], n3 + 2)
         \<and> iterative_loop (Suc fuel) e qname qtype rd start (s1 # s2 # s3 # rest) depth
               last_rcode trace n
           = iterative_loop fuel e qname qtype rd start (extract_glue_ips r) (next_depth depth)
               (rcode r) (trace @ [hop_event e start (step_name depth) s3 r rtt_s n3]) (n3 + 2)"
proof -
  have ex: "examine e (n3 + 2) r = (Referred (extract_glue_ips r), n3 + 2)"
    using assms(4-6) by (auto simp: examine_def)
  have pass: "query_servers e qname qtype rd start label (s1 # s2 # s3 # rest) last_rcode trace n
           = (Break (extract_glue_ips r), rcode r,
              trace @ [hop_event e start label s3 r rtt_s n3], n3 + 2)" for label
    using ex
    by (simp add: query_servers_skip [OF assms(1)] query_servers_skip [OF assms(2)]
        query_servers_got [OF assms(3)])
  show ?thesis
    by (simp add: pass iterative_loop_Suc)
qed

lemma chain_timeouts_leave_no_event:
  "query_servers chain_env ''example.com.'' A False 0 ''Root''
       [''198.41.0.4'', ''199.9.14.201'', ''192.33.4.12''] SERVFAIL [] 1
     = (Break (extract_glue_ips root_referral), NOERROR,
        [hop_event chain_env 0 ''Root'' ''192.33.4.12'' root_referral 2 8], 10)"
proof -
  have q1: "query_server chain_env 1 ''198.41.0.4'' ''example.com.'' A False = (QTimeout, 3)
      \<or> query_server chain_env 1 ''198.41.0.4'' ''example.com.'' A False = (QOSError, 3)"
    by (simp add: chain_query chain_udp_values)
  have q2: "query_server chain_env 3 ''199.9.14.201'' ''example.com.'' A False = (QTimeout, 5)
      \<or> query_server chain_env 3 ''199.9.14.201'' ''example.com.'' A False = (QOSError, 5)"
    by (simp add: chain_query chain_udp_values)
  have q3: "query_server chain_env 5 ''192.33.4.12'' ''example.com.'' A False
      = (Got root_referral 2, 8)"
    by (simp add: chain_query chain_udp_values)
  have r: "\<not> (rcode root_referral = NOERROR \<and> answer root_referral \<noteq> [])"
    "rcode root_referral \<noteq> NXDOMAIN" "extract_glue_ips root_referral \<noteq> []"
    by (simp_all add: referral_glue rcode_distinct)
  from timeouts_leave_no_event [OF q1 q2 q3 r, of 0 "''Root''" "[]" SERVFAIL "[]" 0 0]
  show ?thesis by simp
qed

text \<open>
  C7. The claim fails on the code: with the first two root servers timing out and the third
  answering with a referral, the trace of the pass holds one event, the referral of the
  third server, and no event for either timeout. The servers of the next pass are the
  glue addresses of the referral, as the claim says.
\<close>

theorem two_timeouts_one_event:
  "query_server chain_env 1 ''198.41.0.4'' ''example.com.'' A False = (QTimeout, 3)
   \<and> query_server chain_env 3 ''199.9.14.201'' ''example.com.'' A False = (QTimeout, 5)
   \<and> query_servers chain_env ''example.com.'' A False 0 ''Root''
       [''198.41.0.4'', ''199.9.14.201'', ''192.33.4.12''] SERVFAIL [] 1
     = (Break [''192.5.6.30'', ''2001:503:a83e::2:30''], NOERROR,
        [hop_event chain_env 0 ''Root'' ''192.33.4.12'' root_referral 2 8], 10)
   \<and> length (fst (snd (snd (query_servers chain_env ''example.com.'' A False 0 ''Root''
       [''198.41.0.4'', ''199.9.14.201'', ''192.33.4.12''] SERVFAIL [] 1)))) = 1"
  using chain_pass_root [of "''example.com.''" A False 0 "''Root''" SERVFAIL "[]" 1]
  by (simp add: chain_query chain_udp_values)

section \<open>The iterative lookup: termination, glue\<close>

lemma loop_query: "query_server loop_env n s q t rd = (Got tld_referral 2, n + 3)"
  by (simp add: query_server_def loop_env_def quiet_env_def)

lemma loop_pass:
  "query_servers loop_env q t rd start label (s # rest) l tr n
     = (Break [''199.43.135.53''], NOERROR,
        tr @ [hop_event loop_env start label s tld_referral 2 (n + 3)], n + 5)"
  using referral_examine(2) [of loop_env "n + 5"]
  by (simp add: query_servers_got loop_query ac_simps)

lemma loop_never:
  "servers \<noteq> [] \<Longrightarrow>
     iterative_loop fuel loop_env q t rd start servers depth l tr n = None"
proof (induction fuel arbitrary: servers depth l tr n)
  case 0
  then show ?case by simp
next
  case (Suc fuel)
  then obtain s rest where "servers = s # rest"
    by (cases servers) auto
  with Suc.IH [of "[''199.43.135.53'']"] show ?case
    by (simp add: iterative_loop_Suc loop_pass)
qed

text \<open>
  C9, as stated, fails: when every server answers every query with a referral that carries
  glue, no amount of fuel lets the lookup return, that is, the while loop of the source
  runs for ever.
\<close>

theorem referral_loop_counterexample:
  "\<forall>fuel. iterative_lookup fuel loop_env example_server 0 ''example.com.'' A False = None"
  by (simp add: iterative_lookup_def loop_never example_roots)

text \<open>
  What does hold is that the loop goes on exactly as long as the passes end in referrals
  that give addresses, and that its result does not depend on the fuel left over.
\<close>

lemma iterative_loop_none_iff:
  "(iterative_loop fuel e qname qtype rd start servers depth last_rcode trace n = None)
     = referral_chain fuel e qname qtype rd start servers depth last_rcode trace n"
proof (induction fuel arbitrary: servers depth last_rcode trace n)
  case 0
  show ?case by simp
next
  case (Suc fuel)
  obtain out l t m where qs:
    "query_servers e qname qtype rd start (step_name depth) servers last_rcode trace n
       = (out, l, t, m)"
    by (metis prod_cases4)
  show ?case
    using Suc.IH qs by (cases out) (simp_all add: iterative_loop_Suc)
qed

lemma iterative_loop_mono:
  "iterative_loop fuel e qname qtype rd start servers depth last_rcode trace n = Some r \<Longrightarrow>
   iterative_loop (fuel + k) e qname qtype rd start servers depth last_rcode trace n = Some r"
proof (induction fuel arbitrary: servers depth last_rcode trace n)
  case 0
  then show ?case by simp
next
  case (Suc fuel)
  obtain out l t m where qs:
    "query_servers e qname qtype rd start (step_name depth) servers last_rcode trace n
       = (out, l, t, m)"
    by (metis prod_cases4)
  show ?case
    using Suc.prems Suc.IH qs by (cases out) (auto simp: iterative_loop_Suc)
qed

lemma agrees_on_simps [simp]:
  "agrees_on e f qname qtype rd [] = True"
  "agrees_on e f qname qtype rd ((m, s) # pts)
     = (f m s qname qtype rd = udp_at e m s qname qtype rd \<and> agrees_on e f qname qtype rd pts)"
  "agrees_on e f qname qtype rd (ps @ qs)
     = (agrees_on e f qname qtype rd ps \<and> agrees_on e f qname qtype rd qs)"
  by (simp_all add: agrees_on_def)

lemma query_server_update:
  "f (Suc n) s qname qtype rd = udp_at e (Suc n) s qname qtype rd \<Longrightarrow>
   query_server (e\<lparr>udp_at := f\<rparr>) n s qname qtype rd = query_server e n s qname qtype rd"
  by (simp add: query_server_def split: udp_outcome.splits)

lemma resolve_each_update:
  "resolve_each (e\<lparr>udp_at := f\<rparr>) nss names ips n = resolve_each e nss names ips n"
  by (induction names arbitrary: ips n) (simp_all split: sys_outcome.splits)

lemma resolve_ns_addresses_update:
  "resolve_ns_addresses (e\<lparr>udp_at := f\<rparr>) n names = resolve_ns_addresses e n names"
  by (simp add: resolve_ns_addresses_def configured_nameservers_def
      safe_system_nameservers_def resolve_each_update)

lemma examine_update: "examine (e\<lparr>udp_at := f\<rparr>) n r = examine e n r"
  unfolding examine_def resolve_ns_addresses_update by (rule refl)

lemma hop_event_update:
  "hop_event (e\<lparr>udp_at := f\<rparr>) start label s r rtt_s n = hop_event e start label s r rtt_s n"
  by (simp add: hop_event_def summarize_def)

lemma pass_queries:
  "\<exists>pts. map snd pts = take (length pts) servers
     \<and> (\<forall>f. agrees_on e f qname qtype rd pts \<longrightarrow>
          query_servers (e\<lparr>udp_at := f\<rparr>) qname qtype rd start label servers last_rcode trace n
            = query_servers e qname qtype rd start label servers last_rcode trace n)"
proof (induction servers arbitrary: last_rcode trace n)
  case Nil
  show ?case by (intro exI [of _ "[]"]) simp
next
  case (Cons s rest)
  obtain qr n1 where q: "query_server e n s qname qtype rd = (qr, n1)"
    by (cases "query_server e n s qname qtype rd")
  have q': "query_server (e\<lparr>udp_at := f\<rparr>) n s qname qtype rd = (qr, n1)"
    if "f (Suc n) s qname qtype rd = udp_at e (Suc n) s qname qtype rd" for f
    using that q by (simp add: query_server_update)
  have one: ?case
    if stop: "\<And>f. f (Suc n) s qname qtype rd = udp_at e (Suc n) s qname qtype rd \<Longrightarrow>
        query_servers (e\<lparr>udp_at := f\<rparr>) qname qtype rd start label (s # rest) last_rcode trace n
          = query_servers e qname qtype rd start label (s # rest) last_rcode trace n"
    using stop by (intro exI [of _ "[(Suc n, s)]"]) simp
  have more: ?case
    if go: "\<And>f. f (Suc n) s qname qtype rd = udp_at e (Suc n) s qname qtype rd \<Longrightarrow>
        query_servers (e\<lparr>udp_at := f\<rparr>) qname qtype rd start label (s # rest) last_rcode trace n
          = query_servers (e\<lparr>udp_at := f\<rparr>) qname qtype rd start label rest l t m"
      and here: "query_servers e qname qtype rd start label (s # rest) last_rcode trace n
          = query_servers e qname qtype rd start label rest l t m"
    for l t m
  proof -
    from Cons.IH [of l t m] obtain pts where pts: "map snd pts = take (length pts) rest"
      "\<forall>f. agrees_on e f qname qtype rd pts \<longrightarrow>
          query_servers (e\<lparr>udp_at := f\<rparr>) qname qtype rd start label rest l t m
            = query_servers e qname qtype rd start label rest l t m"
      by blast
    show ?thesis
      using pts go here by (intro exI [of _ "(Suc n, s) # pts"]) simp
  qed
  show ?case
  proof (cases qr)
    case QTimeout
    show ?thesis
      using q q' QTimeout by (intro more [of last_rcode trace n1]) (simp_all add: query_servers_skip)
  next
    case QOSError
    show ?thesis
      using q q' QOSError by (intro more [of last_rcode trace n1]) (simp_all add: query_servers_skip)
  next
    case QOtherError
    show ?thesis
      using q q' QOtherError by (intro one) (simp add: query_servers_raise)
  next
    case (Got r rtt_s)
    obtain v n3 where ex: "examine e (n1 + 2) r = (v, n3)"
      by (cases "examine e (n1 + 2) r")
    show ?thesis
    proof (cases v)
      case Unhelpful
      show ?thesis
        using q q' Got ex Unhelpful
        by (intro more [of "rcode r" "trace @ [hop_event e start label s r rtt_s n1]" n3])
          (simp_all add: query_servers_got examine_update hop_event_update)
    next
      case (Answered a rc)
      show ?thesis
        using q q' Got ex Answered
        by (intro one) (simp add: query_servers_got examine_update hop_event_update)
    next
      case (Referred ips)
      show ?thesis
        using q q' Got ex Referred
        by (intro one) (simp add: query_servers_got examine_update hop_event_update)
    next
      case (Failed x)
      show ?thesis
        using q q' Got ex Failed
        by (intro one) (simp add: query_servers_got examine_update hop_event_update)
    qed
  qed
qed

lemma loop_queries:
  "iterative_loop fuel e qname qtype rd start servers depth last_rcode trace n = Some res \<Longrightarrow>
   \<exists>pts. \<forall>f. agrees_on e f qname qtype rd pts \<longrightarrow>
     iterative_loop fuel (e\<lparr>udp_at := f\<rparr>) qname qtype rd start servers depth last_rcode trace n
       = Some res"
proof (induction fuel arbitrary: servers depth last_rcode trace n)
  case 0
  then show ?case by simp
next
  case (Suc fuel)
  show ?case
  proof (cases "servers = []")
    case True
    with Suc.prems show ?thesis
      by (intro exI [of _ "[]"]) (simp add: iterative_loop_Suc)
  next
    case False
    obtain out l t m where qs:
      "query_servers e qname qtype rd start (step_name depth) servers last_rcode trace n
         = (out, l, t, m)"
      by (metis prod_cases4)
    from pass_queries [of servers e qname qtype rd start "step_name depth" last_rcode trace n]
    obtain pts where pts:
      "\<forall>f. agrees_on e f qname qtype rd pts \<longrightarrow>
          query_servers (e\<lparr>udp_at := f\<rparr>) qname qtype rd start (step_name depth) servers
            last_rcode trace n = (out, l, t, m)"
      unfolding qs by blast
    show ?thesis
    proof (cases "\<exists>servers'. out = Break servers'")
      case True
      then obtain servers' where br: "out = Break servers'" by blast
      with Suc.prems False qs have
        "iterative_loop fuel e qname qtype rd start servers' (next_depth depth) l t m = Some res"
        by (simp add: iterative_loop_Suc)
      from Suc.IH [OF this] obtain pts' where pts':
        "\<forall>f. agrees_on e f qname qtype rd pts' \<longrightarrow>
          iterative_loop fuel (e\<lparr>udp_at := f\<rparr>) qname qtype rd start servers'
            (next_depth depth) l t m = Some res"
        by blast
      show ?thesis
        using pts pts' br False
        by (intro exI [of _ "pts @ pts'"]) (simp add: iterative_loop_Suc)
    next
      case False
      note nb = this
      have "iterative_loop (Suc fuel) (e\<lparr>udp_at := f\<rparr>) qname qtype rd start servers depth
          last_rcode trace n = Some res" if "agrees_on e f qname qtype rd pts" for f
        using that pts Suc.prems \<open>servers \<noteq> []\<close> qs nb
        by (cases out) (simp_all add: iterative_loop_Suc)
      then show ?thesis by blast
    qed
  qed
qed


text \<open>
  C9, as amended. The code puts no bound on the number of referral hops. What holds:
  the outcome of a pass depends on the upstream's reply to at most one query for each
  candidate, taken in list order over a prefix of the list; a pass ends in a referral only
  with a non-empty list of new servers and after recording the event of a server that
  answered; the lookup fails to return within \<open>fuel\<close> passes exactly when each of its
  first \<open>fuel\<close> passes ends in such a referral; and when it returns, more fuel gives
  the same result, which depends on finitely many replies of the upstream.
\<close>

theorem lookup_returns_and_queries:
  "(\<exists>pts. map snd pts = take (length pts) servers
      \<and> (\<forall>f. agrees_on e f qname qtype rd pts \<longrightarrow>
           query_servers (e\<lparr>udp_at := f\<rparr>) qname qtype rd start label servers l tr m
             = query_servers e qname qtype rd start label servers l tr m))
   \<and> (fst (query_servers e qname qtype rd start label servers l tr m) = Break ips \<longrightarrow>
        ips \<noteq> []
        \<and> length tr < length (fst (snd (snd
              (query_servers e qname qtype rd start label servers l tr m)))))
   \<and> (iterative_lookup fuel e srv n qname qtype rd = None)
       = referral_chain fuel e qname qtype rd (perf_at e n) (root_servers srv) 0 SERVFAIL []
           (Suc n)
   \<and> (iterative_lookup fuel e srv n qname qtype rd = Some res \<longrightarrow>
        iterative_lookup (fuel + k) e srv n qname qtype rd = Some res
        \<and> (\<exists>pts. \<forall>f. agrees_on e f qname qtype rd pts \<longrightarrow>
              iterative_lookup fuel (e\<lparr>udp_at := f\<rparr>) srv n qname qtype rd = Some res))"
proof -
  have pass: "\<exists>pts. map snd pts = take (length pts) servers
      \<and> (\<forall>f. agrees_on e f qname qtype rd pts \<longrightarrow>
           query_servers (e\<lparr>udp_at := f\<rparr>) qname qtype rd start label servers l tr m
             = query_servers e qname qtype rd start label servers l tr m)"
    by (rule pass_queries)
  have brk: "ips \<noteq> []
        \<and> length tr < length (fst (snd (snd
              (query_servers e qname qtype rd start label servers l tr m))))"
    if "fst (query_servers e qname qtype rd start label servers l tr m) = Break ips"
    using that query_servers_break [OF refl, of e qname qtype rd start label servers l tr m ips]
      query_servers_break_event [OF refl, of e qname qtype rd start label servers l tr m ips]
    by simp
  have none: "(iterative_lookup fuel e srv n qname qtype rd = None)
       = referral_chain fuel e qname qtype rd (perf_at e n) (root_servers srv) 0 SERVFAIL []
           (Suc n)"
    unfolding iterative_lookup_def by (rule iterative_loop_none_iff)
  have mono: "iterative_lookup (fuel + k) e srv n qname qtype rd = Some res"
    if "iterative_lookup fuel e srv n qname qtype rd = Some res"
    using that unfolding iterative_lookup_def by (rule iterative_loop_mono)
  have fin: "\<exists>pts. \<forall>f. agrees_on e f qname qtype rd pts \<longrightarrow>
              iterative_lookup fuel (e\<lparr>udp_at := f\<rparr>) srv n qname qtype rd = Some res"
    if "iterative_lookup fuel e srv n qname qtype rd = Some res"
    using loop_queries [OF that [unfolded iterative_lookup_def]]
    by (simp add: iterative_lookup_def)
  show ?thesis
    using pass brk none mono fin by blast
qed

theorem lookup_returns_and_queries_witness:
  "\<not> referral_chain 4 chain_env ''example.com.'' A False (perf_at chain_env 0)
       (root_servers example_server) 0 SERVFAIL [] (Suc 0)
   \<and> iterative_lookup (4 + 3) chain_env example_server 0 ''example.com.'' A False
       = iterative_lookup 4 chain_env example_server 0 ''example.com.'' A False
   \<and> (\<exists>pts. \<forall>f. agrees_on chain_env f ''example.com.'' A False pts \<longrightarrow>
         iterative_lookup 4 (chain_env\<lparr>udp_at := f\<rparr>) example_server 0 ''example.com.'' A False
           = iterative_lookup 4 chain_env example_server 0 ''example.com.'' A False)"
proof -
  note run = chain_lookup [of "''example.com.''" A False]
  note inst = lookup_returns_and_queries [where fuel = 4 and e = chain_env
      and srv = example_server and n = 0 and qname = "''example.com.''" and qtype = A
      and rd = False and k = 3, unfolded run]
  have chain: "\<not> referral_chain 4 chain_env ''example.com.'' A False (perf_at chain_env 0)
       (root_servers example_server) 0 SERVFAIL [] (Suc 0)"
    using inst by simp
  have more: "iterative_lookup (4 + 3) chain_env example_server 0 ''example.com.'' A False
       = iterative_lookup 4 chain_env example_server 0 ''example.com.'' A False"
    using inst unfolding run by simp
  have fin: "\<exists>pts. \<forall>f. agrees_on chain_env f ''example.com.'' A False pts \<longrightarrow>
         iterative_lookup 4 (chain_env\<lparr>udp_at := f\<rparr>) example_server 0 ''example.com.'' A False
           = iterative_lookup 4 chain_env example_server 0 ''example.com.'' A False"
    using inst unfolding run by simp
  from chain more fin show ?thesis
    by blast
qed

lemma glue_of_filter:
  "glue_of rs = concat (map (\<lambda>x. map rr_address (items x))
                   (filter (\<lambda>x. rdtype x = A \<or> rdtype x = AAAA) rs))"
  by (induction rs) auto

lemma a_addresses_filter:
  "a_addresses rs = concat (map (\<lambda>x. map rr_address (items x))
                   (filter (\<lambda>x. rdtype x = A) rs))"
  by (induction rs) auto

lemma resolve_each_only_a:
  assumes "\<forall>m nss name. resolve_at e' m nss name A = resolve_at e m nss name A"
  shows "resolve_each e' nameservers ns_names ips n = resolve_each e nameservers ns_names ips n"
proof (induction ns_names arbitrary: ips n)
  case Nil
  show ?case by simp
next
  case (Cons name rest)
  from assms have "resolve_at e' n nameservers name A = resolve_at e n nameservers name A"
    by blast
  with Cons.IH show ?case
    by (simp split: sys_outcome.splits)
qed

lemma resolve_ns_addresses_only_a:
  assumes "\<forall>m nss name. resolve_at e' m nss name A = resolve_at e m nss name A"
    and "system_nameservers e' = system_nameservers e" and "ip_kind e' = ip_kind e"
  shows "resolve_ns_addresses e' n ns_names = resolve_ns_addresses e n ns_names"
proof -
  have "configured_nameservers e' n = configured_nameservers e n"
    using assms(2,3) by (simp add: configured_nameservers_def safe_system_nameservers_def)
  then show ?thesis
    using resolve_each_only_a [OF assms(1)]
    by (simp add: resolve_ns_addresses_def split: prod.splits)
qed

text \<open>
  C10. The glue addresses are those of the A and of the AAAA RRsets of the additional
  section, in order, and when there are any they are the servers of the next pass; the
  secondary lookup of NS names asks the system resolver for type A only (its result does
  not depend on what the resolver would say for any other type) and reads only the A
  RRsets of the answers.
\<close>

theorem glue_accepts_a_and_aaaa:
  "extract_glue_ips r = concat (map (\<lambda>x. map rr_address (items x))
       (filter (\<lambda>x. rdtype x = A \<or> rdtype x = AAAA) (additional r)))
   \<and> (query_server e n s qname qtype rd = (Got r rtt_s, n1)
        \<and> \<not> (rcode r = NOERROR \<and> answer r \<noteq> []) \<and> rcode r \<noteq> NXDOMAIN
        \<and> extract_glue_ips r \<noteq> [] \<longrightarrow>
        fst (query_servers e qname qtype rd start label (s # rest) last_rcode trace n)
          = Break (extract_glue_ips r))
   \<and> ((\<forall>m nss name. resolve_at e' m nss name A = resolve_at e m nss name A)
        \<and> system_nameservers e' = system_nameservers e \<and> ip_kind e' = ip_kind e \<longrightarrow>
        resolve_ns_addresses e' k ns_names = resolve_ns_addresses e k ns_names)
   \<and> a_addresses rs = concat (map (\<lambda>x. map rr_address (items x))
       (filter (\<lambda>x. rdtype x = A) rs))"
proof -
  have glue: "extract_glue_ips r = concat (map (\<lambda>x. map rr_address (items x))
       (filter (\<lambda>x. rdtype x = A \<or> rdtype x = AAAA) (additional r)))"
    unfolding extract_glue_ips_def by (rule glue_of_filter)
  have pass: "fst (query_servers e qname qtype rd start label (s # rest) last_rcode trace n)
          = Break (extract_glue_ips r)"
    if "query_server e n s qname qtype rd = (Got r rtt_s, n1)"
      and "\<not> (rcode r = NOERROR \<and> answer r \<noteq> [])" and "rcode r \<noteq> NXDOMAIN"
      and "extract_glue_ips r \<noteq> []"
  proof -
    have "examine e (n1 + 2) r = (Referred (extract_glue_ips r), n1 + 2)"
      using that(2-4) by (auto simp: examine_def)
    then show ?thesis
      by (simp add: query_servers_got [OF that(1)])
  qed
  show ?thesis
    using glue pass resolve_ns_addresses_only_a a_addresses_filter by blast
qed

theorem glue_accepts_a_and_aaaa_witness:
  "extract_glue_ips root_referral = [''192.5.6.30'', ''2001:503:a83e::2:30'']
   \<and> fst (query_servers chain_env ''example.com.'' A False 0 ''Root'' [''192.33.4.12'']
            SERVFAIL [] 5) = Break [''192.5.6.30'', ''2001:503:a83e::2:30'']
   \<and> resolve_ns_addresses picky_env 0 [''a.gtld-servers.net.'']
        = resolve_ns_addresses quiet_env 0 [''a.gtld-servers.net.'']"
proof -
  have q: "query_server chain_env 5 ''192.33.4.12'' ''example.com.'' A False
      = (Got root_referral 2, 8)"
    by (simp add: chain_query chain_udp_values)
  have r: "\<not> (rcode root_referral = NOERROR \<and> answer root_referral \<noteq> [])"
    "rcode root_referral \<noteq> NXDOMAIN" "extract_glue_ips root_referral \<noteq> []"
    by (simp_all add: referral_glue rcode_distinct)
  have same: "(\<forall>m nss name. resolve_at picky_env m nss name A = resolve_at quiet_env m nss name A)
      \<and> system_nameservers picky_env = system_nameservers quiet_env
      \<and> ip_kind picky_env = ip_kind quiet_env"
    by (simp add: picky_env_def quiet_env_def)
  note pass = glue_accepts_a_and_aaaa [where r = root_referral and e = chain_env and n = 5
      and s = "''192.33.4.12''" and qname = "''example.com.''" and qtype = A and rd = False
      and rtt_s = 2 and ?n1.0 = 8 and start = 0 and label = "''Root''" and rest = "[]"
      and last_rcode = SERVFAIL and trace = "[]"]
  note only_a = glue_accepts_a_and_aaaa [where e' = picky_env and e = quiet_env and k = 0
      and ns_names = "[''a.gtld-servers.net.'']"]
  have p: "fst (query_servers chain_env ''example.com.'' A False 0 ''Root'' [''192.33.4.12'']
            SERVFAIL [] 5) = Break [''192.5.6.30'', ''2001:503:a83e::2:30'']"
    using pass q r by (simp add: referral_glue)
  have o: "resolve_ns_addresses picky_env 0 [''a.gtld-servers.net.'']
        = resolve_ns_addresses quiet_env 0 [''a.gtld-servers.net.'']"
    using only_a same by blast
  show ?thesis
    by (intro conjI, rule referral_glue(1), rule p, rule o)
qed

section \<open>The response decoder: malformed input\<close>









end
